theory Spec2Isabelle
  imports Main "HOL-Library.Word"
begin

unbundle bit_operations_syntax

section \<open>Memory traits\<close>

text \<open>
  \<^verbatim>\<open>PrivateAnalysis.cpp\<close> combines classification evidence with \<^verbatim>\<open>&=\<close> on values of
  the class \<^verbatim>\<open>BitMemoryTrait\<close>, built from the members of the enumeration
  \<^verbatim>\<open>BitMemoryTrait::Id\<close>. The enumeration is a \<^theory_text>\<open>datatype\<close>; a trait value is a
  64-bit bitset (\<^verbatim>\<open>unsigned long long\<close>) and conjunction is bitwise \<open>AND\<close>.
\<close>

datatype Id =
    NoAccess | Readonly | Shared | Private | FirstPrivate | SecondToLastPrivate
  | LastPrivate | DynamicPrivate | Dependency | AddressAccess | HeaderAccess

type_synonym BitMemoryTrait = "64 word"

text \<open>The tags of a \<^verbatim>\<open>MemoryDescriptor\<close> (namespace \<^verbatim>\<open>trait\<close>).\<close>

datatype trait =
    trait_NoAccess | trait_Readonly | trait_Shared | trait_Private | trait_FirstPrivate
  | trait_SecondToLastPrivate | trait_LastPrivate | trait_DynamicPrivate
  | trait_Flow | trait_Anti | trait_Output
  | trait_ExplicitAccess | trait_AddressAccess | trait_HeaderAccess

type_synonym MemoryDescriptor = "trait set"

text \<open>
  Modelled from the spec: the header \<^verbatim>\<open>BitMemoryTrait.h\<close> (the bit pattern of every
  \<^verbatim>\<open>Id\<close>, \<^verbatim>\<open>dropUnitFlag\<close>, \<^verbatim>\<open>dropSharedFlag\<close>, \<^verbatim>\<open>toDescriptor\<close>) is not among the
  sources. The spec only says that a trait is a bitset with a conjunction operator. The
  functions below therefore take the header as a parameter \<open>H\<close>; every general theorem
  holds for each choice of it.
\<close>

record BitMemoryTrait_h =
  bits :: "Id \<Rightarrow> BitMemoryTrait"
  dropUnitFlag :: "BitMemoryTrait \<Rightarrow> BitMemoryTrait"
  dropSharedFlag :: "BitMemoryTrait \<Rightarrow> BitMemoryTrait"
  toDescriptor :: "BitMemoryTrait \<Rightarrow> MemoryDescriptor"

text \<open>
  \<^verbatim>\<open>BitMemoryTrait()\<close>: a default-constructed trait. \<^verbatim>\<open>resolveAccesses\<close> and
  \<^verbatim>\<open>storeResults\<close> start from it and only ever conjoin into it, so it is the neutral
  \<^verbatim>\<open>NoAccess\<close>.
\<close>

definition BitMemoryTrait_default :: "BitMemoryTrait_h \<Rightarrow> BitMemoryTrait" where
  "BitMemoryTrait_default H = bits H NoAccess"

section \<open>Loop-carried dependence records\<close>

text \<open>
  Modelled from the spec: \<^verbatim>\<open>trait::Dependence::Flag\<close> is a bitmask enumeration declared
  in a header that is not among the sources; the flags the source names are the elements
  of \<open>DepFlag\<close>, a mask is the set of its flags, \<^verbatim>\<open>|\<close> is union, \<^verbatim>\<open>No\<close> is the empty
  set and \<^verbatim>\<open>F & UnknownDistance\<close> tests membership.
\<close>

datatype DepFlag = May | LoadStoreCause | CallCause | UnknownCause | UnknownDistance

type_synonym Flag = "DepFlag set"

text \<open>
  \<^verbatim>\<open>DependenceImp\<close>: the descriptor \<^verbatim>\<open>mDptr\<close> over \<^verbatim>\<open>Flow\<close>, \<^verbatim>\<open>Anti\<close>, \<^verbatim>\<open>Output\<close>, and
  for each of the three a set of distances (pointers to \<^verbatim>\<open>SCEV\<close>, kept in insertion
  order without repetition) and a flag mask.
\<close>

record 'scev DependenceImp =
  mDptr :: "trait set"
  mDists :: "trait \<Rightarrow> 'scev list"
  mFlags :: "trait \<Rightarrow> Flag"

definition new_DependenceImp :: "'scev DependenceImp" where
  "new_DependenceImp = \<lparr> mDptr = {}, mDists = (\<lambda>_. []), mFlags = (\<lambda>_. {}) \<rparr>"

text \<open>
  \<^verbatim>\<open>Descriptor::for_each\<close> calls a functor once for every trait of
  \<^verbatim>\<open>TraitDescriptor<Flow, Anti, Output>\<close> that is set, in declaration order.
\<close>

definition for_each :: "trait set \<Rightarrow> (trait \<Rightarrow> 's \<Rightarrow> 's) \<Rightarrow> 's \<Rightarrow> 's" where
  "for_each Dptr f s =
     fold (\<lambda>k s. if k \<in> Dptr then f k s else s) [trait_Flow, trait_Anti, trait_Output] s"

text \<open>
  \<^verbatim>\<open>UpdateFunctor::operator()<Trait>\<close>. The functor carries \<^verbatim>\<open>mFlag\<close> and \<^verbatim>\<open>mDist\<close>
  (a null pointer is \<open>None\<close>); the state threaded through \<open>for_each\<close> is the record
  being updated together with the functor's \<^verbatim>\<open>mFlag\<close>.
\<close>

definition UpdateFunctor ::
  "'scev option \<Rightarrow> trait \<Rightarrow> 'scev DependenceImp \<times> Flag \<Rightarrow> 'scev DependenceImp \<times> Flag" where
  "UpdateFunctor mDist k s =
     (let (dep, mFlag) = s;
          dep1 = dep\<lparr> mDptr := insert k (mDptr dep) \<rparr>;
          mFlag1 = (if mDist = None then mFlag \<union> {UnknownDistance} else mFlag);
          fl = mFlags dep1 k \<union> mFlag1;
          dep2 = dep1\<lparr> mFlags := (mFlags dep1)(k := fl) \<rparr>
      in if UnknownDistance \<notin> fl
         then (dep2\<lparr> mDists := (mDists dep2)
                  (k := (case mDist of Some d \<Rightarrow> List.insert d (mDists dep2 k)
                                     | None \<Rightarrow> mDists dep2 k)) \<rparr>, mFlag1)
         else (dep2\<lparr> mDists := (mDists dep2)(k := []) \<rparr>, mFlag1))"

text \<open>\<^verbatim>\<open>DependenceImp::update(Descriptor Dptr, Flag F, const SCEV *Dist)\<close>.\<close>

definition update ::
  "'scev DependenceImp \<Rightarrow> trait set \<Rightarrow> Flag \<Rightarrow> 'scev option \<Rightarrow> 'scev DependenceImp" where
  "update dep Dptr F Dist = fst (for_each Dptr (UpdateFunctor Dist) (dep, F))"

text \<open>\<^verbatim>\<open>UpdateDepFunctor::operator()<Trait>\<close>, with source record \<open>mSrc\<close>.\<close>

definition UpdateDepFunctor ::
  "'scev DependenceImp \<Rightarrow> trait \<Rightarrow> 'scev DependenceImp \<Rightarrow> 'scev DependenceImp" where
  "UpdateDepFunctor mSrc k dep =
     (let dep1 = dep\<lparr> mDptr := insert k (mDptr dep) \<rparr>;
          fl = mFlags dep1 k \<union> mFlags mSrc k;
          dep2 = dep1\<lparr> mFlags := (mFlags dep1)(k := fl) \<rparr>
      in if UnknownDistance \<notin> fl
         then dep2\<lparr> mDists := (mDists dep2)
                  (k := fold List.insert (mDists mSrc k) (mDists dep2 k)) \<rparr>
         else dep2\<lparr> mDists := (mDists dep2)(k := []) \<rparr>)"

text \<open>\<^verbatim>\<open>DependenceImp::update(DependenceImp &Dep)\<close>.\<close>

definition update_dep :: "'scev DependenceImp \<Rightarrow> 'scev DependenceImp \<Rightarrow> 'scev DependenceImp" where
  "update_dep dep Dep = for_each (mDptr Dep) (UpdateDepFunctor Dep) dep"

text \<open>
  The operations of \<^verbatim>\<open>ScalarEvolution\<close> (LLVM) that \<^verbatim>\<open>SummarizeFunctor\<close> calls; they
  build expressions and are parameters of the model.
\<close>

record 'scev ScalarEvolution =
  getSMaxExpr :: "'scev \<Rightarrow> 'scev \<Rightarrow> 'scev"
  getUMaxExpr :: "'scev list \<Rightarrow> 'scev"
  getNegativeSCEV :: "'scev \<Rightarrow> 'scev"
  getNotSCEV :: "'scev \<Rightarrow> 'scev"

text \<open>\<^verbatim>\<open>trait::IRDependence(Flag, DistanceRange)\<close>; a null bound is \<open>None\<close>.\<close>

record 'scev IRDependence =
  irdFlags :: Flag
  irdDistance :: "'scev option \<times> 'scev option"

text \<open>
  \<^verbatim>\<open>SummarizeFunctor::operator()<Trait>\<close>: the value it stores for \<open>Trait\<close> in the
  trait set.
\<close>

definition SummarizeFunctor ::
  "'scev ScalarEvolution \<Rightarrow> 'scev DependenceImp \<Rightarrow> trait \<Rightarrow> 'scev IRDependence" where
  "SummarizeFunctor mSE mDep k =
     (let Dist = (None, None);
          Dist1 =
            (if UnknownDistance \<notin> mFlags mDep k
             then (let MaxOps = map (\<lambda>D. getSMaxExpr mSE (getNegativeSCEV mSE D) D) (mDists mDep k);
                       MinOps = map (getNotSCEV mSE) MaxOps
                   in (Some (getNotSCEV mSE (getUMaxExpr mSE MinOps)),
                       Some (getUMaxExpr mSE MaxOps)))
             else Dist)
      in \<lparr> irdFlags = mFlags mDep k, irdDistance = Dist1 \<rparr>)"

section \<open>The alias tree\<close>

text \<open>
  The alias tree as the pass queries it: \<^verbatim>\<open>find\<close> of a location (null is \<open>None\<close>)
  and the alias node of an estimate memory.
\<close>

record ('loc, 'em, 'node) AliasTree =
  find_em :: "'loc \<Rightarrow> 'em option"
  getAliasNode :: "'em \<Rightarrow> 'node"

section \<open>The dependence collector: \<^verbatim>\<open>insertDependence\<close>\<close>

text \<open>
  \<^verbatim>\<open>llvm::Dependence\<close> as the function reads it: the direction at a loop level (one of
  the constants of \<^verbatim>\<open>Dependence::DVEntry\<close>; \<open>ALL'\<close> is \<^verbatim>\<open>ALL\<close>), the three kind
  predicates and the distance at a level (a null pointer is \<open>None\<close>).
\<close>

datatype DVEntry = NONE | LT | EQ | LE | GT | GE | NE | ALL'

record 'scev Dependence =
  getDirection :: "nat \<Rightarrow> DVEntry"
  isOutput :: bool
  isAnti :: bool
  isFlow :: bool
  getDistance :: "nat \<Rightarrow> 'scev option"

text \<open>A failed \<^verbatim>\<open>assert\<close> stops the program; it is a value of the model.\<close>

datatype error = AssertionFailed

type_synonym ('em, 'scev) DependenceMap = "'em \<rightharpoonup> 'scev DependenceImp"

text \<open>
  \<^verbatim>\<open>updateDependence\<close>. The first argument is the result of \<^verbatim>\<open>mAliasTree->find\<close>, null
  being \<open>None\<close>.
\<close>

definition updateDependence ::
  "'em option \<Rightarrow> trait set \<Rightarrow> Flag \<Rightarrow> 'scev option \<Rightarrow> ('em, 'scev) DependenceMap
     \<Rightarrow> error + ('em, 'scev) DependenceMap" where
  "updateDependence EM Dptr F Dist Deps =
     (case EM of
        None \<Rightarrow> Inl AssertionFailed
      | Some em \<Rightarrow>
          (let dep = (case Deps em of None \<Rightarrow> new_DependenceImp | Some d \<Rightarrow> d)
           in Inr (Deps(em \<mapsto> update dep Dptr F Dist))))"

text \<open>
  The loop over \<^verbatim>\<open>OuterDepth\<close> of \<^verbatim>\<open>insertDependence\<close>, over the levels
  \<open>[1..<LoopDepth]\<close>: \<open>False\<close> when the loop returns from the function.
\<close>

fun outer_loop :: "'scev Dependence \<Rightarrow> nat list \<Rightarrow> bool" where
  "outer_loop Dep [] = True"
| "outer_loop Dep (OuterDepth # rest) =
     (let Dir = getDirection Dep OuterDepth
      in if Dir \<noteq> EQ \<and> Dir \<noteq> ALL' \<and> Dir \<noteq> LE \<and> Dir \<noteq> GE then False
         else outer_loop Dep rest)"

text \<open>The descriptor \<^verbatim>\<open>Dptr\<close> that \<^verbatim>\<open>insertDependence\<close> builds.\<close>

definition insertDependence_Dptr :: "'scev Dependence \<Rightarrow> DVEntry \<Rightarrow> trait set" where
  "insertDependence_Dptr Dep Dir =
     (if isOutput Dep then {trait_Output}
      else if Dir = ALL' then {trait_Flow, trait_Anti}
      else if isFlow Dep then
        (if Dir = LT \<or> Dir = LE then {trait_Flow} else {trait_Anti})
      else if isAnti Dep then
        (if Dir = LT \<or> Dir = LE then {trait_Anti} else {trait_Flow})
      else {trait_Flow, trait_Anti})"

text \<open>
  \<^verbatim>\<open>PrivateRecognitionPass::insertDependence\<close>; \<open>AT\<close> is \<^verbatim>\<open>mAliasTree\<close> and
  \<open>LoopDepth\<close> is \<^verbatim>\<open>L.getLoopDepth()\<close>.
\<close>

definition insertDependence ::
  "('loc, 'em, 'node) AliasTree \<Rightarrow> 'scev Dependence \<Rightarrow> 'loc \<Rightarrow> 'loc \<Rightarrow> Flag \<Rightarrow> nat
     \<Rightarrow> ('em, 'scev) DependenceMap \<Rightarrow> error + ('em, 'scev) DependenceMap" where
  "insertDependence AT Dep Src Dst Flag LoopDepth Deps =
     (if \<not> outer_loop Dep [1..<LoopDepth] then Inr Deps
      else
        (let Dir = getDirection Dep LoopDepth
         in if Dir = EQ then Inr Deps
            else if \<not> (isOutput Dep \<or> isAnti Dep \<or> isFlow Dep) then Inl AssertionFailed
            else
              (let Dptr = insertDependence_Dptr Dep Dir;
                   Dist = getDistance Dep LoopDepth
               in case updateDependence (find_em AT Src) Dptr ({LoadStoreCause} \<union> Flag) Dist Deps of
                    Inl e \<Rightarrow> Inl e
                  | Inr Deps1 \<Rightarrow>
                      updateDependence (find_em AT Dst) Dptr ({LoadStoreCause} \<union> Flag) Dist Deps1)))"

section \<open>The explicit access resolver: \<^verbatim>\<open>resolveAccesses\<close>\<close>

text \<open>
  The collaborators' results as the function queries them: \<^verbatim>\<open>DefUseSet\<close>,
  \<^verbatim>\<open>LocationDFValue\<close> (live-out and reaching definitions) and \<^verbatim>\<open>DefinitionInfo\<close>.
\<close>

record 'loc DefUseSet =
  getExplicitAccesses :: "'loc list"
  hasUse :: "'loc \<Rightarrow> bool"
  hasDef :: "'loc \<Rightarrow> bool"
  hasMayDef :: "'loc \<Rightarrow> bool"

record 'loc LocationDFValue =
  contain :: "'loc \<Rightarrow> bool"
  overlap :: "'loc \<Rightarrow> bool"

record 'loc DefinitionInfo =
  MustReach :: "'loc LocationDFValue"
  MayReach :: "'loc LocationDFValue"

text \<open>
  The state the resolvers share. A \<^verbatim>\<open>TraitList\<close> item is a pair of an estimate memory
  and its trait, and \<^verbatim>\<open>ExplicitAccesses\<close> maps the estimate memory to a pointer to that
  trait: the trait object is stored once, under its estimate memory, and a list holds the
  estimate memories of its items, the front first.
\<close>

record ('em, 'node) TraitState =
  ExplicitAccesses :: "'em \<rightharpoonup> BitMemoryTrait"
  NodeTraits :: "'node \<Rightarrow> 'em list"

text \<open>
  The local variables \<^verbatim>\<open>SharedTrait\<close> and \<^verbatim>\<open>DefTrait\<close> of the loop body, as the
  enumeration members they are assigned.
\<close>

definition SharedTrait_DefTrait :: "('em, 'scev) DependenceMap \<Rightarrow> 'em \<Rightarrow> Id \<times> Id" where
  "SharedTrait_DefTrait Deps Base =
     (let SharedTrait = NoAccess; DefTrait = Dependency
      in if Base \<notin> dom Deps then (Shared, Shared) else (SharedTrait, DefTrait))"

text \<open>
  \<^verbatim>\<open>CurrTraits\<close>: the trait of a region as the loop body finds it, the default trait
  when the region is met for the first time.
\<close>

definition curr_trait :: "BitMemoryTrait_h \<Rightarrow> ('em \<rightharpoonup> BitMemoryTrait) \<Rightarrow> 'em \<Rightarrow> BitMemoryTrait" where
  "curr_trait H EA Base = (case EA Base of None \<Rightarrow> BitMemoryTrait_default H | Some T \<Rightarrow> T)"

text \<open>The value conjoined into \<^verbatim>\<open>CurrTraits\<close> for one location.\<close>

definition access_trait ::
  "BitMemoryTrait_h \<Rightarrow> 'loc DefUseSet \<Rightarrow> 'loc LocationDFValue \<Rightarrow> 'loc DefinitionInfo
     \<Rightarrow> 'loc DefinitionInfo \<Rightarrow> Id \<times> Id \<Rightarrow> 'loc \<Rightarrow> BitMemoryTrait" where
  "access_trait H DefUse LiveOut LatchDefs ExitingDefs SD Loc =
     (let (SharedTrait, DefTrait) = SD
      in if \<not> hasUse DefUse Loc then
           (if \<not> overlap LiveOut Loc then bits H Private AND bits H SharedTrait
            else if hasDef DefUse Loc then bits H LastPrivate AND bits H SharedTrait
            else if contain (MustReach LatchDefs) Loc \<and> \<not> overlap (MayReach ExitingDefs) Loc
              then bits H SecondToLastPrivate AND bits H FirstPrivate AND bits H SharedTrait
            else bits H DynamicPrivate AND bits H FirstPrivate AND bits H SharedTrait)
         else if hasMayDef DefUse Loc \<or> hasDef DefUse Loc then bits H DefTrait
         else bits H Readonly)"

text \<open>The body of the loop over \<^verbatim>\<open>DefUse.getExplicitAccesses()\<close>.\<close>

definition resolveAccess ::
  "BitMemoryTrait_h \<Rightarrow> ('loc, 'em, 'node) AliasTree \<Rightarrow> 'loc DefUseSet \<Rightarrow> 'loc LocationDFValue
     \<Rightarrow> 'loc DefinitionInfo \<Rightarrow> 'loc DefinitionInfo \<Rightarrow> ('em, 'scev) DependenceMap
     \<Rightarrow> 'loc \<Rightarrow> ('em, 'node) TraitState \<Rightarrow> error + ('em, 'node) TraitState" where
  "resolveAccess H AT DefUse LiveOut LatchDefs ExitingDefs Deps Loc st =
     (case find_em AT Loc of
        None \<Rightarrow> Inl AssertionFailed
      | Some Base \<Rightarrow>
          (let st1 =
                 (case ExplicitAccesses st Base of
                    None \<Rightarrow>
                      st\<lparr> NodeTraits := (NodeTraits st)
                             (getAliasNode AT Base := Base # NodeTraits st (getAliasNode AT Base)),
                          ExplicitAccesses := (ExplicitAccesses st)(Base \<mapsto> BitMemoryTrait_default H) \<rparr>
                  | Some _ \<Rightarrow> st);
               CurrTraits = (case ExplicitAccesses st1 Base of
                               Some T \<Rightarrow> T | None \<Rightarrow> BitMemoryTrait_default H);
               T = access_trait H DefUse LiveOut LatchDefs ExitingDefs
                     (SharedTrait_DefTrait Deps Base) Loc
           in Inr (st1\<lparr> ExplicitAccesses := (ExplicitAccesses st1)(Base \<mapsto> CurrTraits AND T) \<rparr>)))"

text \<open>
  \<^verbatim>\<open>PrivateRecognitionPass::resolveAccesses\<close>, its loop over the explicitly accessed
  locations. The reaching definitions of the latch and of the exit node come from
  \<^verbatim>\<open>mDefInfo\<close>; a missing entry fails the assertion. (The second loop of the function,
  over the unknown accesses, touches no trait of a location.)
\<close>

fun resolveAccesses_loop ::
  "BitMemoryTrait_h \<Rightarrow> ('loc, 'em, 'node) AliasTree \<Rightarrow> 'loc DefUseSet \<Rightarrow> 'loc LocationDFValue
     \<Rightarrow> 'loc DefinitionInfo \<Rightarrow> 'loc DefinitionInfo \<Rightarrow> ('em, 'scev) DependenceMap
     \<Rightarrow> 'loc list \<Rightarrow> ('em, 'node) TraitState \<Rightarrow> error + ('em, 'node) TraitState" where
  "resolveAccesses_loop H AT DefUse LiveOut LatchDefs ExitingDefs Deps [] st = Inr st"
| "resolveAccesses_loop H AT DefUse LiveOut LatchDefs ExitingDefs Deps (Loc # Locs) st =
     (case resolveAccess H AT DefUse LiveOut LatchDefs ExitingDefs Deps Loc st of
        Inl e \<Rightarrow> Inl e
      | Inr st1 \<Rightarrow> resolveAccesses_loop H AT DefUse LiveOut LatchDefs ExitingDefs Deps Locs st1)"

definition resolveAccesses ::
  "BitMemoryTrait_h \<Rightarrow> ('loc, 'em, 'node) AliasTree \<Rightarrow> 'loc DefinitionInfo option
     \<Rightarrow> 'loc DefinitionInfo option \<Rightarrow> 'loc DefUseSet \<Rightarrow> 'loc LocationDFValue
     \<Rightarrow> ('em, 'scev) DependenceMap \<Rightarrow> ('em, 'node) TraitState
     \<Rightarrow> error + ('em, 'node) TraitState" where
  "resolveAccesses H AT LatchDF ExitDF DefUse LiveOut Deps st =
     (case LatchDF of
        None \<Rightarrow> Inl AssertionFailed
      | Some LatchDefs \<Rightarrow>
          (case ExitDF of
             None \<Rightarrow> Inl AssertionFailed
           | Some ExitingDefs \<Rightarrow>
               resolveAccesses_loop H AT DefUse LiveOut LatchDefs ExitingDefs Deps
                 (getExplicitAccesses DefUse) st))"

section \<open>The pointer resolver: \<^verbatim>\<open>resolvePointers\<close>\<close>

text \<open>
  The body of the loop of \<^verbatim>\<open>resolvePointers\<close>. \<open>LoadInst_of Loc\<close> is
  \<^verbatim>\<open>MemoryLocation::get(LI)\<close> when \<^verbatim>\<open>Loc.Ptr\<close> is a load instruction \<^verbatim>\<open>LI\<close>, and
  \<open>None\<close> when the cast fails.
\<close>

definition resolvePointer ::
  "BitMemoryTrait_h \<Rightarrow> ('loc, 'em, 'node) AliasTree \<Rightarrow> ('loc \<Rightarrow> 'loc option) \<Rightarrow> 'loc
     \<Rightarrow> ('em \<rightharpoonup> BitMemoryTrait) \<Rightarrow> error + ('em \<rightharpoonup> BitMemoryTrait)" where
  "resolvePointer H AT LoadInst_of Loc EA =
     (case LoadInst_of Loc of
        None \<Rightarrow> Inr EA
      | Some LI \<Rightarrow>
          (case find_em AT Loc of
             None \<Rightarrow> Inl AssertionFailed
           | Some EM \<Rightarrow>
               (case EA EM of
                  None \<Rightarrow> Inl AssertionFailed
                | Some LocTraits \<Rightarrow>
                    if dropSharedFlag H (dropUnitFlag H LocTraits) = bits H Private
                       \<or> dropUnitFlag H LocTraits = bits H Readonly
                       \<or> dropUnitFlag H LocTraits = bits H Shared
                    then Inr EA
                    else
                      (case find_em AT LI of
                         None \<Rightarrow> Inl AssertionFailed
                       | Some Ptr \<Rightarrow>
                           (case EA Ptr of
                              None \<Rightarrow> Inl AssertionFailed
                            | Some PtrTraits \<Rightarrow>
                                if dropUnitFlag H PtrTraits = bits H Readonly then Inr EA
                                else Inr (EA(EM \<mapsto> LocTraits AND bits H Dependency)))))))"

text \<open>\<^verbatim>\<open>PrivateRecognitionPass::resolvePointers\<close>, over the explicit accesses in order.\<close>

fun resolvePointers ::
  "BitMemoryTrait_h \<Rightarrow> ('loc, 'em, 'node) AliasTree \<Rightarrow> ('loc \<Rightarrow> 'loc option) \<Rightarrow> 'loc list
     \<Rightarrow> ('em \<rightharpoonup> BitMemoryTrait) \<Rightarrow> error + ('em \<rightharpoonup> BitMemoryTrait)" where
  "resolvePointers H AT LoadInst_of [] EA = Inr EA"
| "resolvePointers H AT LoadInst_of (Loc # Locs) EA =
     (case resolvePointer H AT LoadInst_of Loc EA of
        Inl e \<Rightarrow> Inl e
      | Inr EA1 \<Rightarrow> resolvePointers H AT LoadInst_of Locs EA1)"

section \<open>The first-private refiner: \<^verbatim>\<open>checkFirstPrivate\<close>\<close>

text \<open>
  An estimate memory with its sub-regions. \<open>em_locations\<close> lists, for every pointer
  \<^verbatim>\<open>Ptr\<close> of the estimate memory, the location
  \<^verbatim>\<open>MemoryLocation(Ptr, EM.getSize(), EM.getAAInfo())\<close>; \<open>em_id\<close> stands for the address
  of the object.
\<close>

datatype 'loc EstimateMemory =
  EstimateMemory (em_id: nat) (em_locations: "'loc list") (em_children: "'loc EstimateMemory list")

text \<open>\<^verbatim>\<open>make_range(df_begin(EM), df_end(EM))\<close>: depth first, the root first.\<close>

fun df :: "'loc EstimateMemory \<Rightarrow> 'loc EstimateMemory list" where
  "df (EstimateMemory i ls cs) = EstimateMemory i ls cs # concat (map df cs)"

definition isLeaf :: "'loc EstimateMemory \<Rightarrow> bool" where
  "isLeaf EM = (em_children EM = [])"

text \<open>The lambda \<^verbatim>\<open>isAmbiguousCover\<close> of \<^verbatim>\<open>checkFirstPrivate\<close>.\<close>

definition isAmbiguousCover :: "'loc LocationDFValue \<Rightarrow> 'loc EstimateMemory \<Rightarrow> bool" where
  "isAmbiguousCover Reach EM = list_all (contain Reach) (em_locations EM)"

text \<open>
  What the pass holds while it stores the results of a loop. \<open>cover\<close> is the coverage
  test \<^verbatim>\<open>cover(*mAliasTree, Numbers, EM, begin, end)\<close> of \<^verbatim>\<open>MemoryCoverage.h\<close>, which is
  not among the sources and is a parameter; \<open>LatchDF\<close> and \<open>ExitDF\<close> are the entries of
  \<^verbatim>\<open>mDefInfo\<close> for the latch and the exit node of the region (\<open>None\<close> when the lookup
  fails); \<open>aliasNode\<close> is \<^verbatim>\<open>EM->getAliasNode(*mAliasTree)\<close>.
\<close>

record ('loc, 'node, 'scev) Pass =
  header :: BitMemoryTrait_h
  cover :: "'loc EstimateMemory \<Rightarrow> 'loc EstimateMemory list \<Rightarrow> bool"
  LatchDF :: "'loc DefinitionInfo option"
  ExitDF :: "'loc DefinitionInfo option"
  aliasNode :: "'loc EstimateMemory \<Rightarrow> 'node"
  mSE :: "'scev ScalarEvolution"

text \<open>The list \<^verbatim>\<open>DefLeafs\<close> that the loop over the descendants collects.\<close>

definition DefLeafs_of ::
  "MemoryDescriptor \<Rightarrow> 'loc DefinitionInfo \<Rightarrow> 'loc DefinitionInfo \<Rightarrow> 'loc EstimateMemory
     \<Rightarrow> 'loc EstimateMemory list" where
  "DefLeafs_of Dptr LatchDefs ExitingDefs EM =
     filter (\<lambda>Descendant.
        if \<not> isLeaf Descendant then False
        else if trait_LastPrivate \<in> Dptr then
          isAmbiguousCover (MustReach ExitingDefs) Descendant
        else if trait_SecondToLastPrivate \<in> Dptr then
          \<not> (\<not> isAmbiguousCover (MustReach LatchDefs) Descendant
             \<and> \<not> isAmbiguousCover (MustReach ExitingDefs) Descendant)
        else True) (df EM)"

text \<open>
  \<^verbatim>\<open>PrivateRecognitionPass::checkFirstPrivate\<close>. It updates the trait of the list item
  \<^verbatim>\<open>TraitItr\<close> and the descriptor \<^verbatim>\<open>Dptr\<close>; both are returned.
\<close>

definition checkFirstPrivate ::
  "('loc, 'node, 'scev) Pass \<Rightarrow> 'loc EstimateMemory \<times> BitMemoryTrait \<Rightarrow> MemoryDescriptor
     \<Rightarrow> error + (('loc EstimateMemory \<times> BitMemoryTrait) \<times> MemoryDescriptor)" where
  "checkFirstPrivate P TraitItr Dptr =
     (if trait_FirstPrivate \<in> Dptr
         \<or> (trait_LastPrivate \<notin> Dptr \<and> trait_SecondToLastPrivate \<notin> Dptr)
      then Inr (TraitItr, Dptr)
      else
        (case LatchDF P of
           None \<Rightarrow> Inl AssertionFailed
         | Some LatchDefs \<Rightarrow>
             (case ExitDF P of
                None \<Rightarrow> Inl AssertionFailed
              | Some ExitingDefs \<Rightarrow>
                  (let EM = fst TraitItr;
                       DefLeafs = DefLeafs_of Dptr LatchDefs ExitingDefs EM
                   in if cover P EM DefLeafs then Inr (TraitItr, Dptr)
                      else Inr ((EM, snd TraitItr AND bits (header P) FirstPrivate),
                                insert trait_FirstPrivate Dptr)))))"

section \<open>The trait propagator: \<^verbatim>\<open>storeResults\<close> and the coverage closure\<close>

text \<open>
  The per-loop result set. An \<^verbatim>\<open>EstimateMemoryTrait\<close> and an \<^verbatim>\<open>AliasTrait\<close> are trait
  sets: a descriptor and, for a dependence trait that was set with a value, its
  \<^verbatim>\<open>IRDependence\<close>. An \<^verbatim>\<open>AliasTrait\<close> also holds the traits of its estimate memories
  (what a range-for over it visits) and of its unknown accesses.
\<close>

record ('loc, 'scev) EstimateMemoryTrait =
  emt_memory :: "'loc EstimateMemory"
  emt_dptr :: MemoryDescriptor
  emt_dep :: "trait \<Rightarrow> 'scev IRDependence option"

record 'inst UnknownMemoryTrait =
  umt_memory :: 'inst
  umt_dptr :: MemoryDescriptor

record ('loc, 'inst, 'scev) AliasTrait =
  at_dptr :: MemoryDescriptor
  at_dep :: "trait \<Rightarrow> 'scev IRDependence option"
  at_accesses :: "('loc, 'scev) EstimateMemoryTrait list"
  at_unknowns :: "'inst UnknownMemoryTrait list"

type_synonym ('loc, 'inst, 'node, 'scev) DependencySet =
  "'node \<rightharpoonup> ('loc, 'inst, 'scev) AliasTrait"

text \<open>The traits of \<^verbatim>\<open>DependenceImp::Descriptor\<close>.\<close>

definition dep_traits :: "trait set" where
  "dep_traits = {trait_Flow, trait_Anti, trait_Output}"

text \<open>
  \<^verbatim>\<open>NodeTraitItr->insert(EstimateMemoryTrait(...))\<close>: the set is keyed by the estimate
  memory, and an insertion that finds the key leaves the set as it is.
\<close>

definition insert_access ::
  "('loc, 'scev) EstimateMemoryTrait \<Rightarrow> ('loc, 'inst, 'scev) AliasTrait
     \<Rightarrow> ('loc, 'inst, 'scev) AliasTrait" where
  "insert_access t node =
     (if emt_memory t \<in> set (map emt_memory (at_accesses node)) then node
      else node\<lparr> at_accesses := at_accesses node @ [t] \<rparr>)"

text \<open>
  The lambda \<^verbatim>\<open>storeDepIfNeed\<close> applied to the element of the set that \<^verbatim>\<open>EMTraitItr\<close>
  points to: \<^verbatim>\<open>SummarizeFunctor\<close> sets every trait of the record's descriptor in the
  element, with its summary.
\<close>

definition storeDep ::
  "'scev ScalarEvolution \<Rightarrow> 'scev DependenceImp \<Rightarrow> ('loc, 'scev) EstimateMemoryTrait
     \<Rightarrow> ('loc, 'scev) EstimateMemoryTrait" where
  "storeDep SE Dep t =
     for_each (mDptr Dep)
       (\<lambda>k t. t\<lparr> emt_dptr := insert k (emt_dptr t),
                 emt_dep := (emt_dep t)(k \<mapsto> SummarizeFunctor SE Dep k) \<rparr>) t"

definition storeDepIfNeed ::
  "('loc, 'node, 'scev) Pass \<Rightarrow> ('loc EstimateMemory, 'scev) DependenceMap \<Rightarrow> 'loc EstimateMemory
     \<Rightarrow> ('loc, 'inst, 'scev) AliasTrait \<Rightarrow> error + ('loc, 'inst, 'scev) AliasTrait" where
  "storeDepIfNeed P Deps EM node =
     (case Deps EM of
        None \<Rightarrow> Inl AssertionFailed
      | Some Dep \<Rightarrow>
          Inr (node\<lparr> at_accesses :=
                 map (\<lambda>t. if emt_memory t = EM then storeDep (mSE P) Dep t else t)
                     (at_accesses node) \<rparr>))"

text \<open>The descriptor of the element of the set with key \<open>EM\<close>.\<close>

definition access_dptr ::
  "('loc, 'inst, 'scev) AliasTrait \<Rightarrow> 'loc EstimateMemory \<Rightarrow> MemoryDescriptor" where
  "access_dptr node EM =
     (case List.find (\<lambda>t. emt_memory t = EM) (at_accesses node) of
        None \<Rightarrow> {} | Some t \<Rightarrow> emt_dptr t)"

text \<open>
  The test that sets \<^verbatim>\<open>ExplicitAccess\<close> for an estimate memory: it is in the map
  \<^verbatim>\<open>ExplicitAccesses\<close> (\<open>EA\<close>) with a trait other than \<^verbatim>\<open>NoAccess\<close>, and belongs to the
  node \<open>N\<close>. The same for an unknown access and \<^verbatim>\<open>ExplicitUnknowns\<close> (\<open>EU\<close>).
\<close>

definition explicit_in_node ::
  "('loc, 'node, 'scev) Pass \<Rightarrow> 'node \<Rightarrow> ('loc EstimateMemory \<rightharpoonup> BitMemoryTrait)
     \<Rightarrow> 'loc EstimateMemory \<Rightarrow> bool" where
  "explicit_in_node P N EA EM =
     (case EA EM of
        None \<Rightarrow> False
      | Some X \<Rightarrow> dropUnitFlag (header P) X \<noteq> bits (header P) NoAccess \<and> aliasNode P EM = N)"

definition explicit_unknown_in_node ::
  "('loc, 'node, 'scev) Pass \<Rightarrow> 'node \<Rightarrow> ('inst \<rightharpoonup> 'node \<times> BitMemoryTrait) \<Rightarrow> 'inst \<Rightarrow> bool" where
  "explicit_unknown_in_node P N EU U =
     (case EU U of
        None \<Rightarrow> False
      | Some (Node, X) \<Rightarrow> dropUnitFlag (header P) X \<noteq> bits (header P) NoAccess \<and> Node = N)"

text \<open>
  The variables of the second part of \<^verbatim>\<open>storeResults\<close>: \<^verbatim>\<open>CombinedTrait\<close>,
  \<^verbatim>\<open>CombinedDepDptr\<close>, the node's entry \<^verbatim>\<open>*NodeTraitItr\<close>, and the items of the trait
  list already visited, with the traits \<^verbatim>\<open>checkFirstPrivate\<close> left in them.
\<close>

record ('loc, 'inst, 'scev) store_state =
  CombinedTrait :: BitMemoryTrait
  CombinedDepDptr :: "trait set"
  NodeTrait :: "('loc, 'inst, 'scev) AliasTrait"
  Visited :: "('loc EstimateMemory \<times> BitMemoryTrait) list"

text \<open>The body of the loop \<^verbatim>\<open>for (; EMI != EME; ++EMI)\<close>, for the item \<open>EMI\<close>.\<close>

definition store_access ::
  "('loc, 'node, 'scev) Pass \<Rightarrow> 'node \<Rightarrow> ('loc EstimateMemory \<rightharpoonup> BitMemoryTrait)
     \<Rightarrow> ('loc EstimateMemory, 'scev) DependenceMap \<Rightarrow> 'loc EstimateMemory \<times> BitMemoryTrait
     \<Rightarrow> ('loc, 'inst, 'scev) store_state \<Rightarrow> error + ('loc, 'inst, 'scev) store_state" where
  "store_access P N EA Deps EMI s =
     (let C1 = CombinedTrait s AND snd EMI;
          Dptr = toDescriptor (header P) (snd EMI)
      in case checkFirstPrivate P EMI Dptr of
           Inl e \<Rightarrow> Inl e
         | Inr (EMI1, Dptr1) \<Rightarrow>
             (let ex = explicit_in_node P N EA (fst EMI1);
                  node1 = (if ex then (NodeTrait s)\<lparr> at_dptr :=
                                   insert trait_ExplicitAccess (at_dptr (NodeTrait s)) \<rparr>
                           else NodeTrait s);
                  Dptr2 = (if ex then insert trait_ExplicitAccess Dptr1 else Dptr1);
                  Dptr3 = Dptr2 - dep_traits;
                  node2 = insert_access
                            \<lparr> emt_memory = fst EMI1, emt_dptr = Dptr3, emt_dep = (\<lambda>_. None) \<rparr> node1
              in if dropUnitFlag (header P) (snd EMI1) = bits (header P) Dependency then
                   (case storeDepIfNeed P Deps (fst EMI1) node2 of
                      Inl e \<Rightarrow> Inl e
                    | Inr node3 \<Rightarrow>
                        Inr \<lparr> CombinedTrait = C1,
                              CombinedDepDptr = CombinedDepDptr s
                                 \<union> (access_dptr node3 (fst EMI1) \<inter> dep_traits),
                              NodeTrait = node3, Visited = Visited s @ [EMI1] \<rparr>)
                 else
                   Inr \<lparr> CombinedTrait = C1, CombinedDepDptr = CombinedDepDptr s,
                         NodeTrait = node2, Visited = Visited s @ [EMI1] \<rparr>))"

fun store_accesses ::
  "('loc, 'node, 'scev) Pass \<Rightarrow> 'node \<Rightarrow> ('loc EstimateMemory \<rightharpoonup> BitMemoryTrait)
     \<Rightarrow> ('loc EstimateMemory, 'scev) DependenceMap \<Rightarrow> ('loc EstimateMemory \<times> BitMemoryTrait) list
     \<Rightarrow> ('loc, 'inst, 'scev) store_state \<Rightarrow> error + ('loc, 'inst, 'scev) store_state" where
  "store_accesses P N EA Deps [] s = Inr s"
| "store_accesses P N EA Deps (EMI # rest) s =
     (case store_access P N EA Deps EMI s of
        Inl e \<Rightarrow> Inl e
      | Inr s1 \<Rightarrow> store_accesses P N EA Deps rest s1)"

text \<open>The body of the loop \<^verbatim>\<open>for (auto &U : *Traits.get<UnknownList>())\<close>.\<close>

definition store_unknown ::
  "('loc, 'node, 'scev) Pass \<Rightarrow> 'node \<Rightarrow> ('inst \<rightharpoonup> 'node \<times> BitMemoryTrait)
     \<Rightarrow> 'inst \<times> BitMemoryTrait
     \<Rightarrow> ('loc, 'inst, 'scev) store_state \<Rightarrow> ('loc, 'inst, 'scev) store_state" where
  "store_unknown P N EU U s =
     (let C1 = CombinedTrait s AND snd U;
          Dptr = toDescriptor (header P) (snd U);
          ex = explicit_unknown_in_node P N EU (fst U);
          node1 = (if ex then (NodeTrait s)\<lparr> at_dptr :=
                           insert trait_ExplicitAccess (at_dptr (NodeTrait s)) \<rparr>
                   else NodeTrait s);
          Dptr1 = (if ex then insert trait_ExplicitAccess Dptr else Dptr);
          D1 = (if dropUnitFlag (header P) (snd U) = bits (header P) Dependency
                then CombinedDepDptr s \<union> dep_traits else CombinedDepDptr s);
          node2 = node1\<lparr> at_unknowns :=
                    (if fst U \<in> set (map umt_memory (at_unknowns node1)) then at_unknowns node1
                     else at_unknowns node1 @ [\<lparr> umt_memory = fst U, umt_dptr = Dptr1 \<rparr>]) \<rparr>
      in s\<lparr> CombinedTrait := C1, CombinedDepDptr := D1, NodeTrait := node2 \<rparr>)"

definition store_unknowns ::
  "('loc, 'node, 'scev) Pass \<Rightarrow> 'node \<Rightarrow> ('inst \<rightharpoonup> 'node \<times> BitMemoryTrait)
     \<Rightarrow> ('inst \<times> BitMemoryTrait) list
     \<Rightarrow> ('loc, 'inst, 'scev) store_state \<Rightarrow> ('loc, 'inst, 'scev) store_state" where
  "store_unknowns P N EU UL s = fold (store_unknown P N EU) UL s"

text \<open>
  The statement \<^verbatim>\<open>CombinedTrait &= ...\<close> that follows the two loops: the combined
  classification of the node.
\<close>

definition combine :: "BitMemoryTrait_h \<Rightarrow> BitMemoryTrait \<Rightarrow> BitMemoryTrait" where
  "combine H C =
     C AND (if dropUnitFlag H C = bits H Readonly then bits H Readonly
            else if dropUnitFlag H C = bits H Shared then bits H Shared
            else bits H Dependency)"

text \<open>
  \<^verbatim>\<open>PrivateRecognitionPass::storeResults\<close> for the node \<open>N\<close>, with the trait list and the
  unknown list of \<^verbatim>\<open>Traits\<close>. It returns the trait list, whose traits
  \<^verbatim>\<open>checkFirstPrivate\<close> may have refined, and the dependency set.
\<close>

definition storeResults ::
  "('loc, 'node, 'scev) Pass \<Rightarrow> 'node \<Rightarrow> ('loc EstimateMemory \<rightharpoonup> BitMemoryTrait)
     \<Rightarrow> ('inst \<rightharpoonup> 'node \<times> BitMemoryTrait) \<Rightarrow> ('loc EstimateMemory, 'scev) DependenceMap
     \<Rightarrow> ('loc EstimateMemory \<times> BitMemoryTrait) list \<Rightarrow> ('inst \<times> BitMemoryTrait) list
     \<Rightarrow> ('loc, 'inst, 'node, 'scev) DependencySet
     \<Rightarrow> error + (('loc EstimateMemory \<times> BitMemoryTrait) list
                 \<times> ('loc, 'inst, 'node, 'scev) DependencySet)" where
  "storeResults P N EA EU Deps TL UL DS =
     (if DS N \<noteq> None then Inl AssertionFailed
      else if TL = [] \<and> UL = [] then Inr (TL, DS)
      else
        (let fresh = \<lparr> at_dptr = {}, at_dep = (\<lambda>_. None), at_accesses = [], at_unknowns = [] \<rparr>
         in if UL = [] \<and> length TL = 1 then
              (let EMI = hd TL
               in case checkFirstPrivate P EMI (toDescriptor (header P) (snd EMI)) of
                    Inl e \<Rightarrow> Inl e
                  | Inr (EMI1, Dptr1) \<Rightarrow>
                      (let Dptr2 = (if explicit_in_node P N EA (fst EMI1)
                                    then insert trait_ExplicitAccess Dptr1 else Dptr1);
                           Dptr3 = Dptr2 - dep_traits;
                           node1 = fresh\<lparr> at_dptr := Dptr3 \<rparr>;
                           node2 = insert_access
                                     \<lparr> emt_memory = fst EMI1, emt_dptr = Dptr3,
                                       emt_dep = (\<lambda>_. None) \<rparr> node1
                       in if dropUnitFlag (header P) (snd EMI1) = bits (header P) Dependency then
                            (case storeDepIfNeed P Deps (fst EMI1) node2 of
                               Inl e \<Rightarrow> Inl e
                             | Inr node3 \<Rightarrow>
                                 (case List.find (\<lambda>t. emt_memory t = fst EMI1) (at_accesses node3) of
                                    None \<Rightarrow> Inr ([EMI1], DS(N \<mapsto> node3))
                                  | Some t \<Rightarrow>
                                      Inr ([EMI1], DS(N \<mapsto> node3\<lparr> at_dptr := emt_dptr t,
                                                                 at_dep := emt_dep t \<rparr>))))
                          else Inr ([EMI1], DS(N \<mapsto> node2))))
            else
              (case store_accesses P N EA Deps TL
                      \<lparr> CombinedTrait = BitMemoryTrait_default (header P), CombinedDepDptr = {},
                        NodeTrait = fresh, Visited = [] \<rparr> of
                 Inl e \<Rightarrow> Inl e
               | Inr s1 \<Rightarrow>
                   (let s2 = store_unknowns P N EU UL s1;
                        C = combine (header P) (CombinedTrait s2);
                        node = NodeTrait s2;
                        D0 = toDescriptor (header P) C - dep_traits \<union> CombinedDepDptr s2;
                        D1 = (if trait_ExplicitAccess \<in> at_dptr node
                              then insert trait_ExplicitAccess D0 else D0);
                        node1 = node\<lparr> at_dptr := D1,
                                  at_accesses :=
                                    map (\<lambda>T. T\<lparr> emt_dptr := emt_dptr T \<union> CombinedDepDptr s2 \<rparr>)
                                        (at_accesses node) \<rparr>
                    in Inr (Visited s2, DS(N \<mapsto> node1))))))"

text \<open>
  A node of the alias tree with its children, \<^verbatim>\<open>df_begin(&Child)\<close> over it, and the
  closing loops of \<^verbatim>\<open>propagateTraits\<close> over the nodes of \<^verbatim>\<open>Coverage\<close>. The list
  \<^verbatim>\<open>Coverage\<close> is computed by \<^verbatim>\<open>explicitAccessCoverage\<close> of \<^verbatim>\<open>MemoryCoverage.h\<close>,
  which is not among the sources: it is a parameter.
\<close>

datatype 'node AliasNode = AliasNode (node_id: 'node) (node_children: "'node AliasNode list")

fun df_nodes :: "'node AliasNode \<Rightarrow> 'node AliasNode list" where
  "df_nodes (AliasNode n cs) = AliasNode n cs # concat (map df_nodes cs)"

definition set_dependence ::
  "'node AliasNode \<Rightarrow> ('loc, 'inst, 'node, 'scev) DependencySet
     \<Rightarrow> ('loc, 'inst, 'node, 'scev) DependencySet" where
  "set_dependence Descendant DS =
     (case DS (node_id Descendant) of
        None \<Rightarrow> DS
      | Some I \<Rightarrow>
          if trait_NoAccess \<notin> at_dptr I
          then DS(node_id Descendant \<mapsto> I\<lparr> at_dptr := at_dptr I \<union> dep_traits \<rparr>)
          else DS)"

definition coverage_closure ::
  "'node AliasNode list \<Rightarrow> ('loc, 'inst, 'node, 'scev) DependencySet
     \<Rightarrow> ('loc, 'inst, 'node, 'scev) DependencySet" where
  "coverage_closure Coverage DS =
     fold (\<lambda>N. fold (\<lambda>Child. fold set_dependence (df_nodes Child)) (node_children N))
          Coverage DS"

section \<open>Conditions on the input\<close>

text \<open>
  The assertions of \<^verbatim>\<open>resolvePointers\<close> as a condition on its input: every location
  accessed through a loaded pointer, and the location the pointer is loaded from, have an
  estimate memory with an initialised trait.
\<close>

definition traits_initialized ::
  "('loc, 'em, 'node) AliasTree \<Rightarrow> ('loc \<Rightarrow> 'loc option) \<Rightarrow> 'em set \<Rightarrow> 'loc list \<Rightarrow> bool" where
  "traits_initialized AT LoadInst_of D Locs =
     list_all (\<lambda>Loc. case LoadInst_of Loc of
                  None \<Rightarrow> True
                | Some LI \<Rightarrow>
                    (case find_em AT Loc of None \<Rightarrow> False | Some EM \<Rightarrow> EM \<in> D)
                    \<and> (case find_em AT LI of None \<Rightarrow> False | Some Ptr \<Rightarrow> Ptr \<in> D)) Locs"

text \<open>
  The first test of the loop body of \<^verbatim>\<open>resolvePointers\<close>, under which a location is
  skipped, and the trait \<^verbatim>\<open>PtrTraits\<close> that the body reads for a load instruction.
\<close>

definition already_resolved :: "BitMemoryTrait_h \<Rightarrow> BitMemoryTrait \<Rightarrow> bool" where
  "already_resolved H LocTraits \<longleftrightarrow>
     dropSharedFlag H (dropUnitFlag H LocTraits) = bits H Private
     \<or> dropUnitFlag H LocTraits = bits H Readonly
     \<or> dropUnitFlag H LocTraits = bits H Shared"

definition pointer_trait ::
  "('loc, 'em, 'node) AliasTree \<Rightarrow> ('em \<rightharpoonup> BitMemoryTrait) \<Rightarrow> 'loc \<Rightarrow> BitMemoryTrait option" where
  "pointer_trait AT EA LI = (case find_em AT LI of None \<Rightarrow> None | Some Ptr \<Rightarrow> EA Ptr)"

section \<open>Sequences of record updates\<close>

text \<open>A sequence of updates of one record, of either kind.\<close>

datatype 'scev DepOp =
    Update "trait set" Flag "'scev option"
  | Merge "'scev DependenceImp"

fun apply_op :: "'scev DependenceImp \<Rightarrow> 'scev DepOp \<Rightarrow> 'scev DependenceImp" where
  "apply_op dep (Update Dptr F Dist) = update dep Dptr F Dist"
| "apply_op dep (Merge Dep) = update_dep dep Dep"

definition unknown_clears :: "'scev DependenceImp \<Rightarrow> bool" where
  "unknown_clears dep = (\<forall>k. UnknownDistance \<in> mFlags dep k \<longrightarrow> mDists dep k = [])"

section \<open>Concrete inputs\<close>

text \<open>Two updates of a fresh record: a known distance, then a null distance.\<close>

definition w_ops :: "nat DepOp list" where
  "w_ops = [Update {trait_Flow} {LoadStoreCause} (Some 1),
            Update {trait_Flow, trait_Anti} {May} None]"

text \<open>Distances as natural numbers, for evaluation.\<close>

definition w_SE :: "nat ScalarEvolution" where
  "w_SE = \<lparr> getSMaxExpr = max, getUMaxExpr = (\<lambda>xs. fold max xs 0),
            getNegativeSCEV = (\<lambda>x. 0 - x), getNotSCEV = (\<lambda>x. x) \<rparr>"

text \<open>The record of a region in the dependence map, a fresh record when it has none.\<close>

definition get_dep :: "('em, 'scev) DependenceMap \<Rightarrow> 'em \<Rightarrow> 'scev DependenceImp" where
  "get_dep Deps em = (case Deps em of None \<Rightarrow> new_DependenceImp | Some d \<Rightarrow> d)"

text \<open>An alias tree over numbered locations, and dependences reported by the oracle.\<close>

definition w_AT :: "(nat, nat, nat) AliasTree" where
  "w_AT = \<lparr> find_em = Some, getAliasNode = (\<lambda>_. 0) \<rparr>"

text \<open>The same alias tree, except that the locations 0 and 2 lie in one region.\<close>

definition w_AT_shared :: "(nat, nat, nat) AliasTree" where
  "w_AT_shared = \<lparr> find_em = (\<lambda>l. Some (if l = 2 then 0 else l)), getAliasNode = (\<lambda>_. 0) \<rparr>"

definition w_flow_LT :: "nat Dependence" where
  "w_flow_LT = \<lparr> getDirection = (\<lambda>_. LT), isOutput = False, isAnti = False, isFlow = True,
                  getDistance = (\<lambda>_. Some 1) \<rparr>"

definition cex_anti_LT :: "nat Dependence" where
  "cex_anti_LT = \<lparr> getDirection = (\<lambda>_. LT), isOutput = False, isAnti = True, isFlow = False,
                    getDistance = (\<lambda>_. Some 1) \<rparr>"

definition cex_outer_LT :: "nat Dependence" where
  "cex_outer_LT = \<lparr> getDirection = (\<lambda>d. if d = 1 then EQ else LT), isOutput = False,
                     isAnti = False, isFlow = True, getDistance = (\<lambda>_. Some 1) \<rparr>"

text \<open>
  Modelled from the spec: \<^verbatim>\<open>BitMemoryTrait.h\<close> is not among the sources, so the
  evaluations below use one bitset encoding that fits the spec's description of the trait
  lattice: \<^verbatim>\<open>NoAccess\<close> is the top (all bits set), \<^verbatim>\<open>Dependency\<close> the bottom,
  \<^verbatim>\<open>AddressAccess\<close> and \<^verbatim>\<open>HeaderAccess\<close> are flags with a bit of their own (bits 6 and
  7), and the shared flag is bit 5. Dropping a flag sets its bit.
\<close>

definition w_H :: BitMemoryTrait_h where
  "w_H = \<lparr> bits = (\<lambda>i. case i of
               NoAccess \<Rightarrow> 0xFF | Readonly \<Rightarrow> 0xFB | Shared \<Rightarrow> 0xDF | Private \<Rightarrow> 0xEF
             | FirstPrivate \<Rightarrow> 0xEE | SecondToLastPrivate \<Rightarrow> 0xEB | LastPrivate \<Rightarrow> 0xE7
             | DynamicPrivate \<Rightarrow> 0xE3 | Dependency \<Rightarrow> 0xC0
             | AddressAccess \<Rightarrow> 0xBF | HeaderAccess \<Rightarrow> 0x7F),
           dropUnitFlag = (\<lambda>T. T OR 0xC0),
           dropSharedFlag = (\<lambda>T. T OR 0x20),
           toDescriptor = (\<lambda>T.
             (if T AND 0x40 = 0 then {trait_AddressAccess} else {})
             \<union> (if T AND 0x80 = 0 then {trait_HeaderAccess} else {})
             \<union> (let U = T OR 0xC0 in
                  if U = 0xFF then {trait_NoAccess}
                  else if U = 0xFB then {trait_Readonly}
                  else if U = 0xDF then {trait_Shared}
                  else (let P = U OR 0x20 in
                          if P AND 0x1F = 0 then {trait_Flow, trait_Anti, trait_Output}
                          else (if U AND 0x20 = 0 then {trait_Shared} else {})
                             \<union> (if P = 0xEF then {trait_Private} else {})
                             \<union> (if P AND 0x01 = 0 then {trait_FirstPrivate} else {})
                             \<union> (if P AND 0x0C = 0 then {trait_DynamicPrivate}
                                  else if P AND 0x08 = 0 then {trait_LastPrivate}
                                  else if P AND 0x04 = 0 then {trait_SecondToLastPrivate}
                                  else {})))) \<rparr>"

text \<open>
  A loop over five locations: 0 is written before it is read and dead after the loop, 1
  is written and live after the loop, 2 is only read, 8 and 9 are live after the loop and
  have no must definition in the loop; 8 is a must-reaching definition at the latch and no
  may-reaching definition at the exit, 9 is not.
\<close>

definition w_DefUse :: "nat DefUseSet" where
  "w_DefUse = \<lparr> getExplicitAccesses = [0, 1, 2, 8, 9], hasUse = (\<lambda>l. l = 2),
                 hasDef = (\<lambda>l. l = 0 \<or> l = 1), hasMayDef = (\<lambda>l. l = 8 \<or> l = 9) \<rparr>"

definition w_LiveOut :: "nat LocationDFValue" where
  "w_LiveOut = \<lparr> contain = (\<lambda>l. l = 1 \<or> l = 8 \<or> l = 9),
                  overlap = (\<lambda>l. l = 1 \<or> l = 8 \<or> l = 9) \<rparr>"

definition w_LatchDefs :: "nat DefinitionInfo" where
  "w_LatchDefs =
     \<lparr> MustReach = \<lparr> contain = (\<lambda>l. l = 0 \<or> l = 1 \<or> l = 8),
                     overlap = (\<lambda>l. l = 0 \<or> l = 1 \<or> l = 8) \<rparr>,
       MayReach = \<lparr> contain = (\<lambda>l. l = 0 \<or> l = 1 \<or> l = 8 \<or> l = 9),
                    overlap = (\<lambda>l. l = 0 \<or> l = 1 \<or> l = 8 \<or> l = 9) \<rparr> \<rparr>"

definition w_ExitingDefs :: "nat DefinitionInfo" where
  "w_ExitingDefs =
     \<lparr> MustReach = \<lparr> contain = (\<lambda>l. l = 0 \<or> l = 1), overlap = (\<lambda>l. l = 0 \<or> l = 1) \<rparr>,
       MayReach = \<lparr> contain = (\<lambda>l. l = 0 \<or> l = 1 \<or> l = 9),
                    overlap = (\<lambda>l. l = 0 \<or> l = 1 \<or> l = 9) \<rparr> \<rparr>"

definition w_st0 :: "(nat, nat) TraitState" where
  "w_st0 = \<lparr> ExplicitAccesses = Map.empty, NodeTraits = (\<lambda>_. []) \<rparr>"

text \<open>A dependence map with a record for region 0 only.\<close>

definition w_Deps0 :: "(nat, nat) DependenceMap" where
  "w_Deps0 = [0 \<mapsto> new_DependenceImp]"

text \<open>A dependence map in which the regions 0 and 1 already have an output dependence.\<close>

definition w_DepsOut :: "(nat, nat) DependenceMap" where
  "w_DepsOut = [0 \<mapsto> update new_DependenceImp {trait_Output} {LoadStoreCause} None,
                1 \<mapsto> update new_DependenceImp {trait_Output} {LoadStoreCause} None]"

text \<open>
  Location 3 is \<^verbatim>\<open>*p\<close>, its address loaded from location 4 (\<^verbatim>\<open>p\<close>); location 5 is
  \<^verbatim>\<open>*q\<close>, loaded from the read-only location 6; location 7 is a private location
  also reached through \<^verbatim>\<open>p\<close>.
\<close>

definition w_LoadInst_of :: "nat \<Rightarrow> nat option" where
  "w_LoadInst_of l =
     (if l = 3 then Some 4 else if l = 5 then Some 6 else if l = 7 then Some 4 else None)"

definition w_EA :: "nat \<rightharpoonup> BitMemoryTrait" where
  "w_EA = [3 \<mapsto> 0xE7, 4 \<mapsto> 0xDF, 5 \<mapsto> 0xE7, 6 \<mapsto> 0xFB, 7 \<mapsto> 0xCF]"

section \<open>The conjunction of a node's entries\<close>

text \<open>The value of \<^verbatim>\<open>CombinedTrait\<close> after the two loops of \<^verbatim>\<open>storeResults\<close>.\<close>

definition conjoined ::
  "BitMemoryTrait_h \<Rightarrow> ('a \<times> BitMemoryTrait) list \<Rightarrow> ('b \<times> BitMemoryTrait) list \<Rightarrow> BitMemoryTrait" where
  "conjoined H TL UL =
     fold (\<lambda>U C. C AND snd U) UL (fold (\<lambda>E C. C AND snd E) TL (bits H NoAccess))"

text \<open>
  What the spec says of the trait lattice, as far as \<^verbatim>\<open>storeResults\<close> relies on it:
  dropping the unit flags commutes with conjunction and is idempotent, \<^verbatim>\<open>NoAccess\<close> is
  above \<^verbatim>\<open>Readonly\<close> and \<^verbatim>\<open>Shared\<close>, and \<^verbatim>\<open>Dependency\<close> is the bottom.
\<close>

definition trait_lattice :: "BitMemoryTrait_h \<Rightarrow> bool" where
  "trait_lattice H \<longleftrightarrow>
     (\<forall>a b. dropUnitFlag H (a AND b) = dropUnitFlag H a AND dropUnitFlag H b)
     \<and> (\<forall>a. dropUnitFlag H (dropUnitFlag H a) = dropUnitFlag H a)
     \<and> dropUnitFlag H (bits H NoAccess) AND bits H Readonly = bits H Readonly
     \<and> dropUnitFlag H (bits H NoAccess) AND bits H Shared = bits H Shared
     \<and> (\<forall>a. dropUnitFlag H a AND dropUnitFlag H (bits H Dependency) = bits H Dependency)"

text \<open>
  The dependence kinds that the entries of a trait list contribute: those of the record
  of every entry whose trait is \<^verbatim>\<open>Dependency\<close>.
\<close>

definition dep_union ::
  "BitMemoryTrait_h \<Rightarrow> ('em, 'scev) DependenceMap \<Rightarrow> ('em \<times> BitMemoryTrait) list \<Rightarrow> trait set" where
  "dep_union H Deps V =
     \<Union> ((\<lambda>E. if dropUnitFlag H (snd E) = bits H Dependency
                then mDptr (get_dep Deps (fst E)) \<inter> dep_traits else {}) ` set V)"

text \<open>
  The invariant of the loops of \<^verbatim>\<open>storeResults\<close>: \<^verbatim>\<open>CombinedDepDptr\<close> holds dependence
  traits only, and the dependence traits of every entry stored so far are among them.
\<close>

definition kinds_below :: "('loc, 'inst, 'scev) store_state \<Rightarrow> bool" where
  "kinds_below s \<longleftrightarrow>
     CombinedDepDptr s \<subseteq> dep_traits
     \<and> list_all (\<lambda>T. emt_dptr T \<inter> dep_traits \<subseteq> CombinedDepDptr s) (at_accesses (NodeTrait s))"

section \<open>Predicates on dependency sets\<close>

text \<open>What one visit and a sequence of visits do to the entry of a node.\<close>

definition grows ::
  "('loc, 'inst, 'node, 'scev) DependencySet \<Rightarrow> ('loc, 'inst, 'node, 'scev) DependencySet \<Rightarrow> bool" where
  "grows DS DS' =
     (\<forall>n. (case DS n of
             None \<Rightarrow> DS' n = None
           | Some I \<Rightarrow> DS' n = Some I \<or> DS' n = Some (I\<lparr> at_dptr := at_dptr I \<union> dep_traits \<rparr>)))"

text \<open>A node that is visited and is not \<open>NoAccess\<close> carries the three traits from then on.\<close>

definition marked ::
  "('loc, 'inst, 'node, 'scev) DependencySet \<Rightarrow> 'node \<Rightarrow> bool" where
  "marked DS n =
     (case DS n of None \<Rightarrow> True
      | Some I \<Rightarrow> trait_NoAccess \<in> at_dptr I \<or> dep_traits \<subseteq> at_dptr I)"

text \<open>
  An alias tree: node 0 with the children 1 and 3, node 1 with the child 2. The loop
  stored a read-only entry for node 1, a \<^verbatim>\<open>NoAccess\<close> entry for node 2, a shared entry
  for node 0 and none for node 3.
\<close>

definition w_tree :: "nat AliasNode" where
  "w_tree = AliasNode 0 [AliasNode 1 [AliasNode 2 []], AliasNode 3 []]"

definition w_entry :: "MemoryDescriptor \<Rightarrow> (nat, nat, nat) AliasTrait" where
  "w_entry D = \<lparr> at_dptr = D, at_dep = (\<lambda>_. None), at_accesses = [], at_unknowns = [] \<rparr>"

definition w_DS :: "(nat, nat, nat, nat) DependencySet" where
  "w_DS = [0 \<mapsto> w_entry {trait_Shared}, 1 \<mapsto> w_entry {trait_Readonly},
           2 \<mapsto> w_entry {trait_NoAccess}]"

text \<open>
  An estimate memory with two leaves: the locations of leaf 11 are must-reaching
  definitions at the exit, those of leaf 12 only at the latch. A leaf 13 of its own that
  is defined at the exit. The coverage test used for evaluation holds when the list
  contains every leaf below the estimate memory.
\<close>

definition w_EM :: "nat EstimateMemory" where
  "w_EM = EstimateMemory 10 [1] [EstimateMemory 11 [1] [], EstimateMemory 12 [8] []]"

definition w_leaf :: "nat EstimateMemory" where
  "w_leaf = EstimateMemory 13 [1] []"

definition w_cover :: "nat EstimateMemory \<Rightarrow> nat EstimateMemory list \<Rightarrow> bool" where
  "w_cover EM L = list_all (\<lambda>D. \<not> isLeaf D \<or> D \<in> set L) (df EM)"

definition w_P :: "(nat, nat, nat) Pass" where
  "w_P = \<lparr> header = w_H, cover = w_cover, LatchDF = Some w_LatchDefs,
            ExitDF = Some w_ExitingDefs, aliasNode = (\<lambda>_. 0), mSE = w_SE \<rparr>"

text \<open>Dependence records for the two estimate memories: a flow and an output dependence.\<close>

definition w_DepsEM :: "(nat EstimateMemory, nat) DependenceMap" where
  "w_DepsEM = [w_leaf \<mapsto> update new_DependenceImp {trait_Flow} {LoadStoreCause} (Some 1),
               w_EM \<mapsto> update new_DependenceImp {trait_Output} {LoadStoreCause} None]"

section \<open>Properties of the dependence record\<close>

lemma UpdateFunctor_unknown_clears:
  assumes "unknown_clears (fst s)"
  shows "unknown_clears (fst (UpdateFunctor Dist k s))"
  using assms
  by (cases s) (auto simp: UpdateFunctor_def unknown_clears_def Let_def)

lemma UpdateDepFunctor_unknown_clears:
  assumes "unknown_clears dep"
  shows "unknown_clears (UpdateDepFunctor Src k dep)"
  using assms
  by (auto simp: UpdateDepFunctor_def unknown_clears_def Let_def)

lemma update_unknown_clears:
  "unknown_clears dep \<Longrightarrow> unknown_clears (update dep Dptr F Dist)"
  by (simp add: update_def for_each_def UpdateFunctor_unknown_clears)

lemma update_dep_unknown_clears:
  "unknown_clears dep \<Longrightarrow> unknown_clears (update_dep dep Dep)"
  by (simp add: update_dep_def for_each_def UpdateDepFunctor_unknown_clears)

lemma apply_op_unknown_clears:
  "unknown_clears dep \<Longrightarrow> unknown_clears (apply_op dep op)"
  by (cases op) (simp_all add: update_unknown_clears update_dep_unknown_clears)

lemma foldl_apply_op_unknown_clears:
  "unknown_clears dep \<Longrightarrow> unknown_clears (foldl apply_op dep ops)"
  by (induction ops arbitrary: dep) (simp_all add: apply_op_unknown_clears)

lemma new_unknown_clears: "unknown_clears new_DependenceImp"
  by (simp add: unknown_clears_def new_DependenceImp_def)

lemma UpdateFunctor_flag_mono:
  "UnknownDistance \<in> mFlags (fst s) j \<Longrightarrow> UnknownDistance \<in> mFlags (fst (UpdateFunctor Dist k s)) j"
  by (cases s) (auto simp: UpdateFunctor_def Let_def)

lemma UpdateFunctor_null_sets:
  "UnknownDistance \<in> mFlags (fst (UpdateFunctor None k s)) k"
  by (cases s) (auto simp: UpdateFunctor_def Let_def)

lemma update_null_sets:
  assumes "k \<in> Dptr" "k \<in> {trait_Flow, trait_Anti, trait_Output}"
  shows "UnknownDistance \<in> mFlags (update dep Dptr F None) k"
  using assms
  by (auto simp: update_def for_each_def UpdateFunctor_null_sets UpdateFunctor_flag_mono)

text \<open>
  C10. In a \<^verbatim>\<open>DependenceImp\<close> record built by any sequence of updates (from a
  descriptor, a flag and a distance, or merged from another record), a kind whose
  \<^verbatim>\<open>UnknownDistance\<close> flag is set has an empty distance set. An update with a null
  distance sets \<^verbatim>\<open>UnknownDistance\<close> for every kind of its descriptor. Summarization
  leaves both bounds of the range null when \<^verbatim>\<open>UnknownDistance\<close> is set, so a range with
  a bound is produced only when the flag is not set.
\<close>

theorem DependenceImp_unknown_distance:
  "(\<forall>k. UnknownDistance \<in> mFlags (foldl apply_op new_DependenceImp ops) k
        \<longrightarrow> mDists (foldl apply_op new_DependenceImp ops) k = [])
   \<and> (\<forall>k \<in> Dptr \<inter> {trait_Flow, trait_Anti, trait_Output}.
        UnknownDistance \<in> mFlags (update dep Dptr F None) k)
   \<and> (UnknownDistance \<in> mFlags dep k
        \<longrightarrow> irdDistance (SummarizeFunctor SE dep k) = (None, None))
   \<and> (irdDistance (SummarizeFunctor SE dep k) \<noteq> (None, None)
        \<longrightarrow> UnknownDistance \<notin> mFlags dep k)"
proof (intro conjI)
  have "unknown_clears (foldl apply_op new_DependenceImp ops)"
    by (rule foldl_apply_op_unknown_clears) (rule new_unknown_clears)
  then show "\<forall>k. UnknownDistance \<in> mFlags (foldl apply_op new_DependenceImp ops) k
        \<longrightarrow> mDists (foldl apply_op new_DependenceImp ops) k = []"
    by (simp add: unknown_clears_def)
next
  show "\<forall>k \<in> Dptr \<inter> {trait_Flow, trait_Anti, trait_Output}.
        UnknownDistance \<in> mFlags (update dep Dptr F None) k"
    using update_null_sets by blast
next
  show "UnknownDistance \<in> mFlags dep k
        \<longrightarrow> irdDistance (SummarizeFunctor SE dep k) = (None, None)"
    by (simp add: SummarizeFunctor_def)
next
  show "irdDistance (SummarizeFunctor SE dep k) \<noteq> (None, None)
        \<longrightarrow> UnknownDistance \<notin> mFlags dep k"
    by (simp add: SummarizeFunctor_def)
qed

theorem DependenceImp_unknown_distance_witness:
  "UnknownDistance \<in> mFlags (foldl apply_op new_DependenceImp w_ops) trait_Flow
   \<and> mDists (foldl apply_op new_DependenceImp w_ops) trait_Flow = []
   \<and> trait_Anti \<in> {trait_Flow, trait_Anti} \<inter> {trait_Flow, trait_Anti, trait_Output}
   \<and> UnknownDistance \<in> mFlags (update (new_DependenceImp :: nat DependenceImp) {trait_Flow, trait_Anti} {May} None) trait_Anti
   \<and> irdDistance (SummarizeFunctor w_SE (foldl apply_op new_DependenceImp w_ops) trait_Flow) = (None, None)
   \<and> irdDistance (SummarizeFunctor w_SE (foldl apply_op new_DependenceImp
         [Update {trait_Flow} {LoadStoreCause} (Some 1)]) trait_Flow) = (Some 1, Some 1)
   \<and> UnknownDistance \<notin> mFlags (foldl apply_op (new_DependenceImp :: nat DependenceImp)
         [Update {trait_Flow} {LoadStoreCause} (Some 1)]) trait_Flow"
proof -
  have f: "UnknownDistance \<in> mFlags (foldl apply_op new_DependenceImp w_ops) trait_Flow"
    by (simp add: w_ops_def update_def for_each_def UpdateFunctor_def new_DependenceImp_def Let_def)
  have m: "trait_Anti \<in> {trait_Flow, trait_Anti} \<inter> {trait_Flow, trait_Anti, trait_Output}"
    by simp
  have s: "irdDistance (SummarizeFunctor w_SE (foldl apply_op new_DependenceImp
         [Update {trait_Flow} {LoadStoreCause} (Some 1)]) trait_Flow) = (Some 1, Some 1)"
    by (simp add: update_def for_each_def UpdateFunctor_def new_DependenceImp_def Let_def
        SummarizeFunctor_def w_SE_def)
  note a = DependenceImp_unknown_distance
    [where ops = w_ops and Dptr = "{trait_Flow, trait_Anti}" and dep = "foldl apply_op new_DependenceImp w_ops"
       and F = "{May}" and k = trait_Flow and SE = w_SE]
  note b = DependenceImp_unknown_distance
    [where ops = w_ops and Dptr = "{trait_Flow, trait_Anti}" and F = "{May}" and k = trait_Flow and SE = w_SE
       and dep = "foldl apply_op new_DependenceImp [Update {trait_Flow} {LoadStoreCause} (Some 1)]"]
  have u: "UnknownDistance \<in> mFlags (update (new_DependenceImp :: nat DependenceImp) {trait_Flow, trait_Anti} {May} None) trait_Anti"
    by (simp add: update_def for_each_def UpdateFunctor_def new_DependenceImp_def Let_def)
  from a f m b s u show ?thesis by simp
qed

section \<open>Properties of \<^verbatim>\<open>insertDependence\<close>\<close>

lemma outer_loop_iff:
  "outer_loop Dep ds \<longleftrightarrow> (\<forall>d \<in> set ds. getDirection Dep d \<in> {EQ, ALL', LE, GE})"
  by (induction ds) (auto simp: Let_def)

lemma UpdateFunctor_mDptr:
  "mDptr (fst (UpdateFunctor Dist k s)) = insert k (mDptr (fst s))"
  by (cases s) (simp add: UpdateFunctor_def Let_def)

lemma UpdateFunctor_snd_mono: "snd s \<subseteq> snd (UpdateFunctor Dist k s)"
  by (cases s) (auto simp: UpdateFunctor_def Let_def)

lemma UpdateFunctor_flags_mono: "mFlags (fst s) j \<subseteq> mFlags (fst (UpdateFunctor Dist k s)) j"
  by (cases s) (auto simp: UpdateFunctor_def Let_def)

lemma UpdateFunctor_flags_at: "snd s \<subseteq> mFlags (fst (UpdateFunctor Dist k s)) k"
  by (cases s) (auto simp: UpdateFunctor_def Let_def)

lemma update_mDptr:
  "mDptr (update dep Dptr F Dist) = mDptr dep \<union> (Dptr \<inter> {trait_Flow, trait_Anti, trait_Output})"
  by (auto simp: update_def for_each_def UpdateFunctor_mDptr)

lemma fold_UpdateFunctor_snd_mono:
  "snd s \<subseteq> snd (fold (\<lambda>k s. if k \<in> Dptr then UpdateFunctor Dist k s else s) ks s)"
proof (induction ks arbitrary: s)
  case Nil
  show ?case by simp
next
  case (Cons k ks)
  show ?case
    using Cons.IH[of "UpdateFunctor Dist k s"] Cons.IH[of s] UpdateFunctor_snd_mono[of s Dist k]
    by auto
qed

lemma fold_UpdateFunctor_flags_mono:
  "mFlags (fst s) j
     \<subseteq> mFlags (fst (fold (\<lambda>k s. if k \<in> Dptr then UpdateFunctor Dist k s else s) ks s)) j"
proof (induction ks arbitrary: s)
  case Nil
  show ?case by simp
next
  case (Cons k ks)
  show ?case
    using Cons.IH[of "UpdateFunctor Dist k s"] Cons.IH[of s]
      UpdateFunctor_flags_mono[of s j Dist k]
    by auto
qed

lemma fold_UpdateFunctor_flags_at:
  assumes "k \<in> set ks" "k \<in> Dptr"
  shows "snd s
     \<subseteq> mFlags (fst (fold (\<lambda>k s. if k \<in> Dptr then UpdateFunctor Dist k s else s) ks s)) k"
  using assms
proof (induction ks arbitrary: s)
  case Nil
  then show ?case by simp
next
  case (Cons a ks)
  show ?case
  proof (cases "a = k")
    case True
    have "snd s \<subseteq> mFlags (fst (UpdateFunctor Dist k s)) k"
      by (rule UpdateFunctor_flags_at)
    also have "\<dots> \<subseteq> mFlags (fst (fold (\<lambda>k s. if k \<in> Dptr then UpdateFunctor Dist k s else s)
                       ks (UpdateFunctor Dist k s))) k"
      by (rule fold_UpdateFunctor_flags_mono)
    finally show ?thesis using True Cons.prems by simp
  next
    case False
    with Cons.prems have in_ks: "k \<in> set ks" by simp
    show ?thesis
    proof (cases "a \<in> Dptr")
      case True
      have "snd s \<subseteq> snd (UpdateFunctor Dist a s)"
        by (rule UpdateFunctor_snd_mono)
      also have "\<dots> \<subseteq> mFlags (fst (fold (\<lambda>k s. if k \<in> Dptr then UpdateFunctor Dist k s else s)
                       ks (UpdateFunctor Dist a s))) k"
        by (rule Cons.IH[OF in_ks Cons.prems(2)])
      finally show ?thesis using True by simp
    next
      case False
      then show ?thesis using Cons.IH[OF in_ks Cons.prems(2), of s] by simp
    qed
  qed
qed

lemma update_flags:
  assumes "k \<in> Dptr" "k \<in> {trait_Flow, trait_Anti, trait_Output}"
  shows "F \<subseteq> mFlags (update dep Dptr F Dist) k"
proof -
  from assms(2) have "k \<in> set [trait_Flow, trait_Anti, trait_Output]" by simp
  from fold_UpdateFunctor_flags_at[OF this assms(1), of "(dep, F)" Dist]
  show ?thesis by (simp add: update_def for_each_def)
qed

lemma insertDependence_rejected:
  assumes "(\<exists>d \<in> {1..<LoopDepth}. getDirection Dep d \<notin> {EQ, ALL', LE, GE})
           \<or> getDirection Dep LoopDepth = EQ"
  shows "insertDependence AT Dep Src Dst Flag LoopDepth Deps = Inr Deps"
  using assms by (auto simp: insertDependence_def outer_loop_iff)

lemma insertDependence_accepted:
  assumes "\<forall>d \<in> {1..<LoopDepth}. getDirection Dep d \<in> {EQ, ALL', LE, GE}"
      and "getDirection Dep LoopDepth \<noteq> EQ"
      and "isOutput Dep \<or> isAnti Dep \<or> isFlow Dep"
      and "find_em AT Src = Some s" "find_em AT Dst = Some t"
  shows "insertDependence AT Dep Src Dst Flag LoopDepth Deps =
     Inr (let K = insertDependence_Dptr Dep (getDirection Dep LoopDepth);
              Fl = {LoadStoreCause} \<union> Flag;
              Dist = getDistance Dep LoopDepth;
              Deps1 = Deps(s \<mapsto> update (get_dep Deps s) K Fl Dist)
          in Deps1(t \<mapsto> update (get_dep Deps1 t) K Fl Dist))"
  using assms
  by (simp add: insertDependence_def outer_loop_iff updateDependence_def Let_def get_dep_def)

lemma insertDependence_Dptr_sub:
  "insertDependence_Dptr Dep Dir \<subseteq> {trait_Flow, trait_Anti, trait_Output}"
  "insertDependence_Dptr Dep Dir \<noteq> {}"
  by (auto simp: insertDependence_Dptr_def)

lemma insertDependence_records:
  assumes "\<forall>d \<in> {1..<LoopDepth}. getDirection Dep d \<in> {EQ, ALL', LE, GE}"
      and "getDirection Dep LoopDepth \<noteq> EQ"
      and "isOutput Dep \<or> isAnti Dep \<or> isFlow Dep"
      and "find_em AT Src = Some s" "find_em AT Dst = Some t"
  defines "K \<equiv> insertDependence_Dptr Dep (getDirection Dep LoopDepth)"
  shows "\<exists>Deps'. insertDependence AT Dep Src Dst Flag LoopDepth Deps = Inr Deps'
      \<and> (\<forall>r \<in> {s, t}. \<exists>rec. Deps' r = Some rec
              \<and> mDptr rec = mDptr (get_dep Deps r) \<union> K
              \<and> (\<forall>k \<in> K. LoadStoreCause \<in> mFlags rec k))
      \<and> (\<forall>r. r \<notin> {s, t} \<longrightarrow> Deps' r = Deps r)"
proof -
  have Ksub: "K \<subseteq> {trait_Flow, trait_Anti, trait_Output}"
    unfolding K_def by (rule insertDependence_Dptr_sub)
  have fl: "\<And>dep k Dist. k \<in> K \<Longrightarrow> LoadStoreCause \<in> mFlags (update dep K (insert LoadStoreCause Flag) Dist) k"
    using update_flags[of _ K "insert LoadStoreCause Flag"] Ksub by blast
  have dp: "\<And>dep F Dist. mDptr (update dep K F Dist) = mDptr dep \<union> K"
    using Ksub by (auto simp: update_mDptr)
  show ?thesis
    unfolding insertDependence_accepted[OF assms(1-5)] Let_def K_def[symmetric]
    by (auto simp: fl dp get_dep_def)
qed

text \<open>
  C3 (as amended). For an accepted oracle result on a pair of concrete accesses with both
  locations in the alias tree: an output dependence is classified \<^verbatim>\<open>Output\<close>; otherwise
  direction \<^verbatim>\<open>ALL\<close> gives both \<^verbatim>\<open>Flow\<close> and \<^verbatim>\<open>Anti\<close>; otherwise a flow dependence
  gives \<^verbatim>\<open>Flow\<close> for direction \<^verbatim>\<open>LT\<close> or \<^verbatim>\<open>LE\<close> and \<^verbatim>\<open>Anti\<close> for every other direction,
  and an anti dependence gives \<^verbatim>\<open>Anti\<close> for \<^verbatim>\<open>LT\<close> or \<^verbatim>\<open>LE\<close> and \<^verbatim>\<open>Flow\<close> for every other
  direction. The descriptor is added, tagged \<^verbatim>\<open>LoadStoreCause\<close>, to the records of both
  regions, and no other record changes.
\<close>

theorem insertDependence_classifies:
  assumes "\<forall>d \<in> {1..<LoopDepth}. getDirection Dep d \<in> {EQ, ALL', LE, GE}"
      and "getDirection Dep LoopDepth \<noteq> EQ"
      and "isOutput Dep \<or> isAnti Dep \<or> isFlow Dep"
      and "find_em AT Src = Some s" "find_em AT Dst = Some t"
  shows "\<exists>Deps' K. insertDependence AT Dep Src Dst Flag LoopDepth Deps = Inr Deps'
      \<and> (isOutput Dep \<longrightarrow> K = {trait_Output})
      \<and> (\<not> isOutput Dep \<and> getDirection Dep LoopDepth = ALL' \<longrightarrow> K = {trait_Flow, trait_Anti})
      \<and> (\<not> isOutput Dep \<and> isFlow Dep \<and> getDirection Dep LoopDepth \<in> {LT, LE}
            \<longrightarrow> K = {trait_Flow})
      \<and> (\<not> isOutput Dep \<and> isFlow Dep \<and> getDirection Dep LoopDepth \<notin> {LT, LE, ALL'}
            \<longrightarrow> K = {trait_Anti})
      \<and> (\<not> isOutput Dep \<and> \<not> isFlow Dep \<and> isAnti Dep \<and> getDirection Dep LoopDepth \<in> {LT, LE}
            \<longrightarrow> K = {trait_Anti})
      \<and> (\<not> isOutput Dep \<and> \<not> isFlow Dep \<and> isAnti Dep
            \<and> getDirection Dep LoopDepth \<notin> {LT, LE, ALL'}
            \<longrightarrow> K = {trait_Flow})
      \<and> (\<forall>r \<in> {s, t}. \<exists>rec. Deps' r = Some rec
              \<and> mDptr rec = mDptr (get_dep Deps r) \<union> K
              \<and> (\<forall>k \<in> K. LoadStoreCause \<in> mFlags rec k))
      \<and> (\<forall>r. r \<notin> {s, t} \<longrightarrow> Deps' r = Deps r)"
proof -
  let ?K = "insertDependence_Dptr Dep (getDirection Dep LoopDepth)"
  from insertDependence_records[OF assms, of Flag Deps]
  obtain Deps' where D:
    "insertDependence AT Dep Src Dst Flag LoopDepth Deps = Inr Deps'"
    "\<forall>r \<in> {s, t}. \<exists>rec. Deps' r = Some rec
        \<and> mDptr rec = mDptr (get_dep Deps r) \<union> ?K
        \<and> (\<forall>k \<in> ?K. LoadStoreCause \<in> mFlags rec k)"
    "\<forall>r. r \<notin> {s, t} \<longrightarrow> Deps' r = Deps r"
    by (elim exE conjE) (rule that)
  have c1: "isOutput Dep \<longrightarrow> ?K = {trait_Output}"
    by (simp add: insertDependence_Dptr_def)
  have c2: "\<not> isOutput Dep \<and> getDirection Dep LoopDepth = ALL' \<longrightarrow> ?K = {trait_Flow, trait_Anti}"
    by (simp add: insertDependence_Dptr_def)
  have c3: "\<not> isOutput Dep \<and> isFlow Dep \<and> getDirection Dep LoopDepth \<in> {LT, LE}
            \<longrightarrow> ?K = {trait_Flow}"
    by (auto simp: insertDependence_Dptr_def)
  have c4: "\<not> isOutput Dep \<and> isFlow Dep \<and> getDirection Dep LoopDepth \<notin> {LT, LE, ALL'}
            \<longrightarrow> ?K = {trait_Anti}"
    by (auto simp: insertDependence_Dptr_def)
  have c5: "\<not> isOutput Dep \<and> \<not> isFlow Dep \<and> isAnti Dep \<and> getDirection Dep LoopDepth \<in> {LT, LE}
            \<longrightarrow> ?K = {trait_Anti}"
    by (auto simp: insertDependence_Dptr_def)
  have c6: "\<not> isOutput Dep \<and> \<not> isFlow Dep \<and> isAnti Dep
            \<and> getDirection Dep LoopDepth \<notin> {LT, LE, ALL'} \<longrightarrow> ?K = {trait_Flow}"
    by (auto simp: insertDependence_Dptr_def)
  show ?thesis
    apply (rule exI[of _ Deps'])
    apply (rule exI[of _ ?K])
    using D c1 c2 c3 c4 c5 c6 apply (intro conjI)
    apply assumption+
    done
qed

theorem insertDependence_classifies_witness:
  "\<exists>Deps'. insertDependence w_AT w_flow_LT 0 1 {} 1 Map.empty = Inr Deps'
     \<and> (\<exists>rec. Deps' 0 = Some rec \<and> mDptr rec = {trait_Flow}
            \<and> LoadStoreCause \<in> mFlags rec trait_Flow)
     \<and> (\<exists>rec. Deps' 1 = Some rec \<and> mDptr rec = {trait_Flow}
            \<and> LoadStoreCause \<in> mFlags rec trait_Flow)"
proof -
  have h1: "\<forall>d \<in> {1..<1::nat}. getDirection w_flow_LT d \<in> {EQ, ALL', LE, GE}" by simp
  have h2: "getDirection w_flow_LT 1 \<noteq> EQ" by (simp add: w_flow_LT_def)
  have h3: "isOutput w_flow_LT \<or> isAnti w_flow_LT \<or> isFlow w_flow_LT"
    by (simp add: w_flow_LT_def)
  have h4: "find_em w_AT 0 = Some 0" "find_em w_AT 1 = Some 1" by (simp_all add: w_AT_def)
  from insertDependence_classifies[OF h1 h2 h3 h4, of "{}" Map.empty]
  obtain Deps' K where D:
    "insertDependence w_AT w_flow_LT 0 1 {} 1 Map.empty = Inr Deps'"
    "\<not> isOutput w_flow_LT \<and> isFlow w_flow_LT \<and> getDirection w_flow_LT 1 \<in> {LT, LE}
       \<longrightarrow> K = {trait_Flow}"
    "\<forall>r \<in> {0, 1::nat}. \<exists>rec. Deps' r = Some rec
        \<and> mDptr rec = mDptr (get_dep (Map.empty :: (nat, nat) DependenceMap) r) \<union> K
        \<and> (\<forall>k \<in> K. LoadStoreCause \<in> mFlags rec k)"
    by (elim exE conjE) (rule that)
  from D(2) have K: "K = {trait_Flow}" by (simp add: w_flow_LT_def)
  from D(1,3) show ?thesis
    unfolding K by (simp add: get_dep_def new_DependenceImp_def)
qed

text \<open>
  The claim as stated gives \<^verbatim>\<open>Flow\<close> for every forward direction. An anti dependence
  with direction \<^verbatim>\<open>LT\<close> is recorded as \<^verbatim>\<open>Anti\<close> alone, in both regions.
\<close>

theorem insertDependence_anti_forward_counterexample:
  "isAnti cex_anti_LT \<and> \<not> isFlow cex_anti_LT \<and> \<not> isOutput cex_anti_LT
   \<and> getDirection cex_anti_LT 1 = LT
   \<and> (case insertDependence w_AT cex_anti_LT 0 1 {} 1 Map.empty of
         Inl e \<Rightarrow> None | Inr Deps' \<Rightarrow> map_option mDptr (Deps' 0)) = Some {trait_Anti}
   \<and> (case insertDependence w_AT cex_anti_LT 0 1 {} 1 Map.empty of
         Inl e \<Rightarrow> None | Inr Deps' \<Rightarrow> map_option mDptr (Deps' 1)) = Some {trait_Anti}"
  by (simp add: cex_anti_LT_def w_AT_def insertDependence_def insertDependence_Dptr_def
      updateDependence_def update_def for_each_def UpdateFunctor_def new_DependenceImp_def Let_def)

text \<open>
  C4 (as amended). \<^verbatim>\<open>insertDependence\<close> records nothing when at some loop level strictly
  enclosing the current loop the direction is not one of \<^verbatim>\<open>EQ\<close>, \<^verbatim>\<open>ALL\<close>, \<^verbatim>\<open>LE\<close>, \<^verbatim>\<open>GE\<close>,
  or when the direction at the current level is \<^verbatim>\<open>EQ\<close>. In every other case a flow, anti
  or output dependence between two locations of the alias tree is recorded for both
  regions: the function returns the map in which the record of the source region, and
  then that of the destination region, is updated with the descriptor built from the
  dependence; the descriptor is not empty, its kinds are added to the kinds each of the
  two records had, tagged \<^verbatim>\<open>LoadStoreCause\<close>, and no other record changes.
\<close>

theorem insertDependence_rejects:
  "((\<exists>d \<in> {1..<LoopDepth}. getDirection Dep d \<notin> {EQ, ALL', LE, GE})
      \<or> getDirection Dep LoopDepth = EQ
     \<longrightarrow> insertDependence AT Dep Src Dst Flag LoopDepth Deps = Inr Deps)
   \<and> ((\<forall>d \<in> {1..<LoopDepth}. getDirection Dep d \<in> {EQ, ALL', LE, GE})
       \<and> getDirection Dep LoopDepth \<noteq> EQ
       \<and> (isOutput Dep \<or> isAnti Dep \<or> isFlow Dep)
       \<and> find_em AT Src = Some s \<and> find_em AT Dst = Some t
     \<longrightarrow> insertDependence_Dptr Dep (getDirection Dep LoopDepth) \<noteq> {}
         \<and> insertDependence_Dptr Dep (getDirection Dep LoopDepth)
              \<subseteq> {trait_Flow, trait_Anti, trait_Output}
         \<and> insertDependence AT Dep Src Dst Flag LoopDepth Deps =
             Inr (let K = insertDependence_Dptr Dep (getDirection Dep LoopDepth);
                      Fl = {LoadStoreCause} \<union> Flag;
                      Dist = getDistance Dep LoopDepth;
                      Deps1 = Deps(s \<mapsto> update (get_dep Deps s) K Fl Dist)
                  in Deps1(t \<mapsto> update (get_dep Deps1 t) K Fl Dist))
         \<and> (\<exists>Deps'. insertDependence AT Dep Src Dst Flag LoopDepth Deps = Inr Deps'
              \<and> (\<forall>r \<in> {s, t}. \<exists>rec. Deps' r = Some rec
                    \<and> mDptr rec = mDptr (get_dep Deps r)
                         \<union> insertDependence_Dptr Dep (getDirection Dep LoopDepth)
                    \<and> (\<forall>k \<in> insertDependence_Dptr Dep (getDirection Dep LoopDepth).
                           LoadStoreCause \<in> mFlags rec k))
              \<and> (\<forall>r. r \<notin> {s, t} \<longrightarrow> Deps' r = Deps r)))"
proof (intro conjI impI)
  assume "(\<exists>d \<in> {1..<LoopDepth}. getDirection Dep d \<notin> {EQ, ALL', LE, GE})
      \<or> getDirection Dep LoopDepth = EQ"
  then show "insertDependence AT Dep Src Dst Flag LoopDepth Deps = Inr Deps"
    by (rule insertDependence_rejected)
next
  show "insertDependence_Dptr Dep (getDirection Dep LoopDepth) \<noteq> {}"
    by (rule insertDependence_Dptr_sub)
next
  show "insertDependence_Dptr Dep (getDirection Dep LoopDepth)
          \<subseteq> {trait_Flow, trait_Anti, trait_Output}"
    by (rule insertDependence_Dptr_sub)
next
  assume a: "(\<forall>d \<in> {1..<LoopDepth}. getDirection Dep d \<in> {EQ, ALL', LE, GE})
       \<and> getDirection Dep LoopDepth \<noteq> EQ
       \<and> (isOutput Dep \<or> isAnti Dep \<or> isFlow Dep)
       \<and> find_em AT Src = Some s \<and> find_em AT Dst = Some t"
  then have a1: "\<forall>d \<in> {1..<LoopDepth}. getDirection Dep d \<in> {EQ, ALL', LE, GE}"
    and a2: "getDirection Dep LoopDepth \<noteq> EQ"
    and a3: "isOutput Dep \<or> isAnti Dep \<or> isFlow Dep"
    and a4: "find_em AT Src = Some s" and a5: "find_em AT Dst = Some t"
    by simp_all
  show "insertDependence AT Dep Src Dst Flag LoopDepth Deps =
             Inr (let K = insertDependence_Dptr Dep (getDirection Dep LoopDepth);
                      Fl = {LoadStoreCause} \<union> Flag;
                      Dist = getDistance Dep LoopDepth;
                      Deps1 = Deps(s \<mapsto> update (get_dep Deps s) K Fl Dist)
                  in Deps1(t \<mapsto> update (get_dep Deps1 t) K Fl Dist))"
    by (rule insertDependence_accepted[OF a1 a2 a3 a4 a5])
  show "\<exists>Deps'. insertDependence AT Dep Src Dst Flag LoopDepth Deps = Inr Deps'
              \<and> (\<forall>r \<in> {s, t}. \<exists>rec. Deps' r = Some rec
                    \<and> mDptr rec = mDptr (get_dep Deps r)
                         \<union> insertDependence_Dptr Dep (getDirection Dep LoopDepth)
                    \<and> (\<forall>k \<in> insertDependence_Dptr Dep (getDirection Dep LoopDepth).
                           LoadStoreCause \<in> mFlags rec k))
              \<and> (\<forall>r. r \<notin> {s, t} \<longrightarrow> Deps' r = Deps r)"
    by (rule insertDependence_records[OF a1 a2 a3 a4 a5])
qed

theorem insertDependence_rejects_witness:
  "getDirection cex_outer_LT 2 \<notin> {EQ, ALL', LE, GE}
   \<and> insertDependence w_AT cex_outer_LT 0 1 {} 3 w_DepsOut = Inr w_DepsOut
   \<and> (\<exists>Deps'. insertDependence w_AT w_flow_LT 0 1 {} 1 w_DepsOut = Inr Deps'
         \<and> (\<exists>rec. Deps' 0 = Some rec \<and> mDptr rec = {trait_Flow, trait_Output}
               \<and> LoadStoreCause \<in> mFlags rec trait_Flow)
         \<and> (\<exists>rec. Deps' 1 = Some rec \<and> mDptr rec = {trait_Flow, trait_Output}
               \<and> LoadStoreCause \<in> mFlags rec trait_Flow)
         \<and> Deps' 2 = None)
   \<and> map_option mDptr (w_DepsOut 0) = Some {trait_Output}
   \<and> map_option mDptr (w_DepsOut 1) = Some {trait_Output}"
proof -
  have h0: "getDirection cex_outer_LT 2 \<notin> {EQ, ALL', LE, GE}" by (simp add: cex_outer_LT_def)
  then have h0': "(\<exists>d \<in> {1..<3::nat}. getDirection cex_outer_LT d \<notin> {EQ, ALL', LE, GE})
      \<or> getDirection cex_outer_LT 3 = EQ"
    by (intro disjI1 bexI[of _ 2]) simp_all
  have h1: "(\<forall>d \<in> {1..<1::nat}. getDirection w_flow_LT d \<in> {EQ, ALL', LE, GE})
       \<and> getDirection w_flow_LT 1 \<noteq> EQ
       \<and> (isOutput w_flow_LT \<or> isAnti w_flow_LT \<or> isFlow w_flow_LT)
       \<and> find_em w_AT 0 = Some 0 \<and> find_em w_AT 1 = Some 1"
    by (simp add: w_flow_LT_def w_AT_def)
  note a = insertDependence_rejects[where Dep = cex_outer_LT and LoopDepth = 3 and AT = w_AT
      and Src = 0 and Dst = 1 and Flag = "{}" and Deps = w_DepsOut, THEN conjunct1, rule_format, OF h0']
  note b = insertDependence_rejects[where Dep = w_flow_LT and LoopDepth = 1 and AT = w_AT
      and Src = 0 and Dst = 1 and Flag = "{}" and Deps = w_DepsOut and s = 0 and t = 1,
      THEN conjunct2, rule_format, OF h1]
  have K: "insertDependence_Dptr w_flow_LT (getDirection w_flow_LT 1) = {trait_Flow}"
    by (simp add: insertDependence_Dptr_def w_flow_LT_def)
  have o: "mDptr (get_dep w_DepsOut 0) = {trait_Output}" "mDptr (get_dep w_DepsOut 1) = {trait_Output}"
    "w_DepsOut 2 = None"
    by (simp_all add: w_DepsOut_def get_dep_def update_mDptr new_DependenceImp_def)
  have o': "map_option mDptr (w_DepsOut 0) = Some {trait_Output}"
    "map_option mDptr (w_DepsOut 1) = Some {trait_Output}"
    by (simp_all add: w_DepsOut_def update_mDptr new_DependenceImp_def)
  from b[THEN conjunct2, THEN conjunct2, THEN conjunct2]
  obtain Deps' where D:
    "insertDependence w_AT w_flow_LT 0 1 {} 1 w_DepsOut = Inr Deps'"
    "\<forall>r \<in> {0, 1::nat}. \<exists>rec. Deps' r = Some rec
        \<and> mDptr rec = mDptr (get_dep w_DepsOut r)
             \<union> insertDependence_Dptr w_flow_LT (getDirection w_flow_LT 1)
        \<and> (\<forall>k \<in> insertDependence_Dptr w_flow_LT (getDirection w_flow_LT 1).
               LoadStoreCause \<in> mFlags rec k)"
    "\<forall>r. r \<notin> {0, 1::nat} \<longrightarrow> Deps' r = w_DepsOut r"
    by (elim exE conjE) (rule that)
  from D(3) o(3) have d2: "Deps' 2 = None" by simp
  from D(2) have d0: "\<exists>rec. Deps' 0 = Some rec \<and> mDptr rec = {trait_Flow, trait_Output}
               \<and> LoadStoreCause \<in> mFlags rec trait_Flow"
    unfolding K using o(1) o(2) by simp
  from D(2) have d1: "\<exists>rec. Deps' 1 = Some rec \<and> mDptr rec = {trait_Flow, trait_Output}
               \<and> LoadStoreCause \<in> mFlags rec trait_Flow"
    unfolding K using o(1) o(2) by simp
  from D(1) d0 d1 d2
  have c: "\<exists>Deps'. insertDependence w_AT w_flow_LT 0 1 {} 1 w_DepsOut = Inr Deps'
         \<and> (\<exists>rec. Deps' 0 = Some rec \<and> mDptr rec = {trait_Flow, trait_Output}
               \<and> LoadStoreCause \<in> mFlags rec trait_Flow)
         \<and> (\<exists>rec. Deps' 1 = Some rec \<and> mDptr rec = {trait_Flow, trait_Output}
               \<and> LoadStoreCause \<in> mFlags rec trait_Flow)
         \<and> Deps' 2 = None"
    by (intro exI[of _ Deps'] conjI)
  from h0 a c o' show ?thesis by simp
qed

lemma upt_Suc0_3: "[Suc 0..<3] = [Suc 0, 2]"
  by (simp add: upt_conv_Cons eval_nat_numeral)

text \<open>
  The claim as stated rejects only when every enclosing level has a direction outside
  the set. Here the loop has depth 3, level 1 has direction \<^verbatim>\<open>EQ\<close> (inside the set), level
  2 has \<^verbatim>\<open>LT\<close>, and the current level is not \<^verbatim>\<open>EQ\<close>: the result is rejected all the same.
\<close>

theorem insertDependence_outer_level_counterexample:
  "getDirection cex_outer_LT 1 \<in> {EQ, ALL', LE, GE}
   \<and> getDirection cex_outer_LT 3 \<noteq> EQ
   \<and> isFlow cex_outer_LT
   \<and> insertDependence w_AT cex_outer_LT 0 1 {} 3 Map.empty = Inr Map.empty"
  by (simp add: cex_outer_LT_def w_AT_def insertDependence_def upt_Suc0_3)

section \<open>Properties of \<^verbatim>\<open>resolveAccesses\<close>\<close>

lemma resolveAccess_result:
  assumes "find_em AT Loc = Some Base"
  shows "\<exists>st'. resolveAccess H AT DefUse LiveOut LatchDefs ExitingDefs Deps Loc st = Inr st'
     \<and> ExplicitAccesses st' = (ExplicitAccesses st)
          (Base \<mapsto> curr_trait H (ExplicitAccesses st) Base
                   AND access_trait H DefUse LiveOut LatchDefs ExitingDefs
                         (SharedTrait_DefTrait Deps Base) Loc)"
  using assms
  by (cases "ExplicitAccesses st Base")
     (simp_all add: resolveAccess_def curr_trait_def Let_def)

lemma resolveAccess_nodes:
  assumes "find_em AT Loc = Some Base"
    and "resolveAccess H AT DefUse LiveOut LatchDefs ExitingDefs Deps Loc st = Inr st'"
  shows "NodeTraits st' =
     (if ExplicitAccesses st Base = None
      then (NodeTraits st)(getAliasNode AT Base := Base # NodeTraits st (getAliasNode AT Base))
      else NodeTraits st)"
  using assms
  by (cases "ExplicitAccesses st Base") (auto simp: resolveAccess_def Let_def)

lemma resolveAccesses_loop_exact:
  assumes "list_all (\<lambda>l. find_em AT l \<noteq> None) Locs"
  shows "\<exists>st'. resolveAccesses_loop H AT DefUse LiveOut LatchDefs ExitingDefs Deps Locs st = Inr st'
     \<and> (\<forall>B. ExplicitAccesses st' B =
            (if \<exists>l \<in> set Locs. find_em AT l = Some B
             then Some (fold (\<lambda>l T. T AND access_trait H DefUse LiveOut LatchDefs ExitingDefs
                                        (SharedTrait_DefTrait Deps B) l)
                          (filter (\<lambda>l. find_em AT l = Some B) Locs)
                          (curr_trait H (ExplicitAccesses st) B))
             else ExplicitAccesses st B))
     \<and> (\<forall>n. set (NodeTraits st' n) = set (NodeTraits st n)
             \<union> {B. getAliasNode AT B = n \<and> ExplicitAccesses st B = None
                    \<and> (\<exists>l \<in> set Locs. find_em AT l = Some B)})"
  using assms
proof (induction Locs arbitrary: st)
  case Nil
  show ?case by simp
next
  case (Cons L Locs)
  let ?acc = "\<lambda>B l. access_trait H DefUse LiveOut LatchDefs ExitingDefs (SharedTrait_DefTrait Deps B) l"
  from Cons.prems obtain BL where BL: "find_em AT L = Some BL" by auto
  from resolveAccess_result[OF BL, of H DefUse LiveOut LatchDefs ExitingDefs Deps st]
  obtain st1 where st1:
    "resolveAccess H AT DefUse LiveOut LatchDefs ExitingDefs Deps L st = Inr st1"
    "ExplicitAccesses st1 = (ExplicitAccesses st)
          (BL \<mapsto> curr_trait H (ExplicitAccesses st) BL AND ?acc BL L)"
    by (elim exE conjE) (rule that)
  note nt1 = resolveAccess_nodes[OF BL st1(1)]
  from Cons.prems have rest: "list_all (\<lambda>l. find_em AT l \<noteq> None) Locs" by simp
  from Cons.IH[OF rest, of st1]
  obtain st' where st':
    "resolveAccesses_loop H AT DefUse LiveOut LatchDefs ExitingDefs Deps Locs st1 = Inr st'"
    "\<forall>B. ExplicitAccesses st' B =
            (if \<exists>l \<in> set Locs. find_em AT l = Some B
             then Some (fold (\<lambda>l T. T AND ?acc B l)
                          (filter (\<lambda>l. find_em AT l = Some B) Locs)
                          (curr_trait H (ExplicitAccesses st1) B))
             else ExplicitAccesses st1 B)"
    "\<forall>n. set (NodeTraits st' n) = set (NodeTraits st1 n)
             \<union> {B. getAliasNode AT B = n \<and> ExplicitAccesses st1 B = None
                    \<and> (\<exists>l \<in> set Locs. find_em AT l = Some B)}"
    by (elim exE conjE) (rule that)
  have run: "resolveAccesses_loop H AT DefUse LiveOut LatchDefs ExitingDefs Deps (L # Locs) st = Inr st'"
    using st1(1) st'(1) by simp
  have c1: "curr_trait H (ExplicitAccesses st1) BL
              = curr_trait H (ExplicitAccesses st) BL AND ?acc BL L"
    using st1(2) by (simp add: curr_trait_def)
  have c2: "curr_trait H (ExplicitAccesses st1) B = curr_trait H (ExplicitAccesses st) B"
    if "B \<noteq> BL" for B
    using st1(2) that by (simp add: curr_trait_def)
  have ea: "ExplicitAccesses st' B =
            (if \<exists>l \<in> set (L # Locs). find_em AT l = Some B
             then Some (fold (\<lambda>l T. T AND ?acc B l)
                          (filter (\<lambda>l. find_em AT l = Some B) (L # Locs))
                          (curr_trait H (ExplicitAccesses st) B))
             else ExplicitAccesses st B)" for B
  proof (cases "B = BL")
    case True
    show ?thesis
      using st'(2)[rule_format, of BL] BL c1 st1(2) unfolding True by simp
  next
    case False
    show ?thesis
      using st'(2)[rule_format, of B] BL c2[OF False] st1(2) False by auto
  qed
  have nt: "set (NodeTraits st' n) = set (NodeTraits st n)
             \<union> {B. getAliasNode AT B = n \<and> ExplicitAccesses st B = None
                    \<and> (\<exists>l \<in> set (L # Locs). find_em AT l = Some B)}" for n
  proof (cases "ExplicitAccesses st BL")
    case None
    with nt1 have n1: "NodeTraits st1 =
       (NodeTraits st)(getAliasNode AT BL := BL # NodeTraits st (getAliasNode AT BL))" by simp
    show ?thesis
      unfolding st'(3)[rule_format, of n] n1 st1(2) using BL None by auto
  next
    case (Some T)
    with nt1 have n1: "NodeTraits st1 = NodeTraits st" by simp
    show ?thesis
      unfolding st'(3)[rule_format, of n] n1 st1(2) using BL Some by auto
  qed
  show ?case
    using run ea nt by (intro exI[of _ st'] conjI allI)
qed

lemma fold_and_same:
  fixes T0 :: BitMemoryTrait
  assumes "\<forall>l \<in> set Ls. f l = C" "Ls \<noteq> []"
  shows "fold (\<lambda>l T. T AND f l) Ls T0 = T0 AND C"
  using assms
proof (induction Ls arbitrary: T0)
  case Nil
  then show ?case by simp
next
  case (Cons l Ls)
  show ?case
  proof (cases "Ls = []")
    case True
    with Cons.prems show ?thesis by simp
  next
    case False
    from Cons.prems have "\<forall>l \<in> set Ls. f l = C" "f l = C" by simp_all
    with Cons.IH[OF this(1) False, of "T0 AND f l"] show ?thesis
      by (simp add: and.assoc)
  qed
qed

text \<open>
  C1. \<^verbatim>\<open>resolveAccesses\<close>, over explicit accesses that all have a region, returns, and
  the trait it leaves for a region is the trait the region had (\<^verbatim>\<open>NoAccess\<close> if it had
  none) conjoined, for every explicitly accessed location of the region in turn, with
  exactly one value; a region without such a location keeps what it had. For a location
  that is not used before being defined in the loop this value is, in this order:
  \<^verbatim>\<open>Private\<close> if the location is not live after the loop; \<^verbatim>\<open>LastPrivate\<close> if it is live
  and has a must definition in the loop; \<^verbatim>\<open>SecondToLastPrivate & FirstPrivate\<close> if it is
  live, has no must definition, is a must-reaching definition at the latch and no
  may-reaching definition at the exit; \<^verbatim>\<open>DynamicPrivate & FirstPrivate\<close> otherwise; each
  conjoined with \<^verbatim>\<open>SharedTrait\<close>. In particular a region without a recorded dependence,
  whose explicitly accessed locations are all not upward exposed and not live after the
  loop, ends as its former trait conjoined with \<^verbatim>\<open>Private & Shared\<close>, which is
  \<^verbatim>\<open>NoAccess & Private & Shared\<close> for a region met for the first time. The regions met
  for the first time are exactly those added to the trait list of their alias node.
\<close>

theorem resolveAccesses_private_cases:
  assumes "list_all (\<lambda>l. find_em AT l \<noteq> None) (getExplicitAccesses DefUse)"
  shows "\<exists>st'. resolveAccesses H AT (Some LatchDefs) (Some ExitingDefs) DefUse LiveOut Deps st
               = Inr st'
     \<and> (\<forall>B. ExplicitAccesses st' B =
            (if \<exists>l \<in> set (getExplicitAccesses DefUse). find_em AT l = Some B
             then Some (fold (\<lambda>l T. T AND access_trait H DefUse LiveOut LatchDefs ExitingDefs
                                        (SharedTrait_DefTrait Deps B) l)
                          (filter (\<lambda>l. find_em AT l = Some B) (getExplicitAccesses DefUse))
                          (curr_trait H (ExplicitAccesses st) B))
             else ExplicitAccesses st B))
     \<and> (\<forall>Loc B. \<not> hasUse DefUse Loc \<longrightarrow>
           (\<not> overlap LiveOut Loc
              \<longrightarrow> access_trait H DefUse LiveOut LatchDefs ExitingDefs (SharedTrait_DefTrait Deps B) Loc
                    = bits H Private AND bits H (fst (SharedTrait_DefTrait Deps B)))
         \<and> (overlap LiveOut Loc \<and> hasDef DefUse Loc
              \<longrightarrow> access_trait H DefUse LiveOut LatchDefs ExitingDefs (SharedTrait_DefTrait Deps B) Loc
                    = bits H LastPrivate AND bits H (fst (SharedTrait_DefTrait Deps B)))
         \<and> (overlap LiveOut Loc \<and> \<not> hasDef DefUse Loc
              \<and> contain (MustReach LatchDefs) Loc \<and> \<not> overlap (MayReach ExitingDefs) Loc
              \<longrightarrow> access_trait H DefUse LiveOut LatchDefs ExitingDefs (SharedTrait_DefTrait Deps B) Loc
                    = bits H SecondToLastPrivate AND bits H FirstPrivate
                        AND bits H (fst (SharedTrait_DefTrait Deps B)))
         \<and> (overlap LiveOut Loc \<and> \<not> hasDef DefUse Loc
              \<and> \<not> (contain (MustReach LatchDefs) Loc \<and> \<not> overlap (MayReach ExitingDefs) Loc)
              \<longrightarrow> access_trait H DefUse LiveOut LatchDefs ExitingDefs (SharedTrait_DefTrait Deps B) Loc
                    = bits H DynamicPrivate AND bits H FirstPrivate
                        AND bits H (fst (SharedTrait_DefTrait Deps B))))
     \<and> (\<forall>B. (\<exists>l \<in> set (getExplicitAccesses DefUse). find_em AT l = Some B)
           \<and> (\<forall>l \<in> set (getExplicitAccesses DefUse). find_em AT l = Some B
                  \<longrightarrow> \<not> hasUse DefUse l \<and> \<not> overlap LiveOut l)
           \<and> B \<notin> dom Deps
         \<longrightarrow> ExplicitAccesses st' B
                 = Some (curr_trait H (ExplicitAccesses st) B AND (bits H Private AND bits H Shared))
               \<and> (ExplicitAccesses st B = None
                    \<longrightarrow> ExplicitAccesses st' B
                          = Some (bits H NoAccess AND (bits H Private AND bits H Shared))))
     \<and> (\<forall>n. set (NodeTraits st' n) = set (NodeTraits st n)
             \<union> {B. getAliasNode AT B = n \<and> ExplicitAccesses st B = None
                    \<and> (\<exists>l \<in> set (getExplicitAccesses DefUse). find_em AT l = Some B)})
     \<and> (\<forall>Loc Base st0. find_em AT Loc = Some Base
          \<longrightarrow> (\<exists>st1. resolveAccess H AT DefUse LiveOut LatchDefs ExitingDefs Deps Loc st0 = Inr st1
                 \<and> ExplicitAccesses st1 = (ExplicitAccesses st0)
                       (Base \<mapsto> curr_trait H (ExplicitAccesses st0) Base
                                 AND access_trait H DefUse LiveOut LatchDefs ExitingDefs
                                       (SharedTrait_DefTrait Deps Base) Loc)))"
proof -
  have vis: "\<forall>Loc Base st0. find_em AT Loc = Some Base
          \<longrightarrow> (\<exists>st1. resolveAccess H AT DefUse LiveOut LatchDefs ExitingDefs Deps Loc st0 = Inr st1
                 \<and> ExplicitAccesses st1 = (ExplicitAccesses st0)
                       (Base \<mapsto> curr_trait H (ExplicitAccesses st0) Base
                                 AND access_trait H DefUse LiveOut LatchDefs ExitingDefs
                                       (SharedTrait_DefTrait Deps Base) Loc))"
    using resolveAccess_result[of AT _ _ H DefUse LiveOut LatchDefs ExitingDefs Deps]
    by (intro allI impI)
  from resolveAccesses_loop_exact[OF assms, of H DefUse LiveOut LatchDefs ExitingDefs Deps st]
  obtain st' where st':
    "resolveAccesses_loop H AT DefUse LiveOut LatchDefs ExitingDefs Deps
       (getExplicitAccesses DefUse) st = Inr st'"
    "\<forall>B. ExplicitAccesses st' B =
            (if \<exists>l \<in> set (getExplicitAccesses DefUse). find_em AT l = Some B
             then Some (fold (\<lambda>l T. T AND access_trait H DefUse LiveOut LatchDefs ExitingDefs
                                        (SharedTrait_DefTrait Deps B) l)
                          (filter (\<lambda>l. find_em AT l = Some B) (getExplicitAccesses DefUse))
                          (curr_trait H (ExplicitAccesses st) B))
             else ExplicitAccesses st B)"
    "\<forall>n. set (NodeTraits st' n) = set (NodeTraits st n)
             \<union> {B. getAliasNode AT B = n \<and> ExplicitAccesses st B = None
                    \<and> (\<exists>l \<in> set (getExplicitAccesses DefUse). find_em AT l = Some B)}"
    by (elim exE conjE) (rule that)
  have run: "resolveAccesses H AT (Some LatchDefs) (Some ExitingDefs) DefUse LiveOut Deps st
               = Inr st'"
    using st'(1) by (simp add: resolveAccesses_def)
  have cases: "\<forall>Loc B. \<not> hasUse DefUse Loc \<longrightarrow>
           (\<not> overlap LiveOut Loc
              \<longrightarrow> access_trait H DefUse LiveOut LatchDefs ExitingDefs (SharedTrait_DefTrait Deps B) Loc
                    = bits H Private AND bits H (fst (SharedTrait_DefTrait Deps B)))
         \<and> (overlap LiveOut Loc \<and> hasDef DefUse Loc
              \<longrightarrow> access_trait H DefUse LiveOut LatchDefs ExitingDefs (SharedTrait_DefTrait Deps B) Loc
                    = bits H LastPrivate AND bits H (fst (SharedTrait_DefTrait Deps B)))
         \<and> (overlap LiveOut Loc \<and> \<not> hasDef DefUse Loc
              \<and> contain (MustReach LatchDefs) Loc \<and> \<not> overlap (MayReach ExitingDefs) Loc
              \<longrightarrow> access_trait H DefUse LiveOut LatchDefs ExitingDefs (SharedTrait_DefTrait Deps B) Loc
                    = bits H SecondToLastPrivate AND bits H FirstPrivate
                        AND bits H (fst (SharedTrait_DefTrait Deps B)))
         \<and> (overlap LiveOut Loc \<and> \<not> hasDef DefUse Loc
              \<and> \<not> (contain (MustReach LatchDefs) Loc \<and> \<not> overlap (MayReach ExitingDefs) Loc)
              \<longrightarrow> access_trait H DefUse LiveOut LatchDefs ExitingDefs (SharedTrait_DefTrait Deps B) Loc
                    = bits H DynamicPrivate AND bits H FirstPrivate
                        AND bits H (fst (SharedTrait_DefTrait Deps B)))"
    by (auto simp: access_trait_def split: prod.splits)
  have priv: "ExplicitAccesses st' B
                 = Some (curr_trait H (ExplicitAccesses st) B AND (bits H Private AND bits H Shared))
               \<and> (ExplicitAccesses st B = None
                    \<longrightarrow> ExplicitAccesses st' B
                          = Some (bits H NoAccess AND (bits H Private AND bits H Shared)))"
    if h: "(\<exists>l \<in> set (getExplicitAccesses DefUse). find_em AT l = Some B)
           \<and> (\<forall>l \<in> set (getExplicitAccesses DefUse). find_em AT l = Some B
                  \<longrightarrow> \<not> hasUse DefUse l \<and> \<not> overlap LiveOut l)
           \<and> B \<notin> dom Deps" for B
  proof -
    let ?Ls = "filter (\<lambda>l. find_em AT l = Some B) (getExplicitAccesses DefUse)"
    let ?f = "access_trait H DefUse LiveOut LatchDefs ExitingDefs (SharedTrait_DefTrait Deps B)"
    from h have ex: "\<exists>l \<in> set (getExplicitAccesses DefUse). find_em AT l = Some B"
      and al: "\<forall>l \<in> set (getExplicitAccesses DefUse). find_em AT l = Some B
                  \<longrightarrow> \<not> hasUse DefUse l \<and> \<not> overlap LiveOut l"
      and nd: "B \<notin> dom Deps"
      by simp_all
    from ex have ne: "?Ls \<noteq> []" by (auto simp: filter_empty_conv)
    have same: "\<forall>l \<in> set ?Ls. ?f l = bits H Private AND bits H Shared"
      using al nd by (auto simp: access_trait_def SharedTrait_DefTrait_def)
    from st'(2)[rule_format, of B] ex
    have "ExplicitAccesses st' B
        = Some (fold (\<lambda>l T. T AND ?f l) ?Ls (curr_trait H (ExplicitAccesses st) B))"
      by simp
    also have "fold (\<lambda>l T. T AND ?f l) ?Ls (curr_trait H (ExplicitAccesses st) B)
        = curr_trait H (ExplicitAccesses st) B AND (bits H Private AND bits H Shared)"
      by (rule fold_and_same[OF same ne])
    finally have a: "ExplicitAccesses st' B
        = Some (curr_trait H (ExplicitAccesses st) B AND (bits H Private AND bits H Shared))" .
    then show ?thesis
      by (simp add: curr_trait_def BitMemoryTrait_default_def)
  qed
  then have priv': "\<forall>B. (\<exists>l \<in> set (getExplicitAccesses DefUse). find_em AT l = Some B)
           \<and> (\<forall>l \<in> set (getExplicitAccesses DefUse). find_em AT l = Some B
                  \<longrightarrow> \<not> hasUse DefUse l \<and> \<not> overlap LiveOut l)
           \<and> B \<notin> dom Deps
         \<longrightarrow> ExplicitAccesses st' B
                 = Some (curr_trait H (ExplicitAccesses st) B AND (bits H Private AND bits H Shared))
               \<and> (ExplicitAccesses st B = None
                    \<longrightarrow> ExplicitAccesses st' B
                          = Some (bits H NoAccess AND (bits H Private AND bits H Shared)))"
    by (intro allI impI)
  show ?thesis
    using run st'(2) cases priv' st'(3) vis by (intro exI[of _ st'] conjI)
qed

theorem resolveAccesses_private_cases_witness:
  "(\<exists>st2. resolveAccesses w_H w_AT (Some w_LatchDefs) (Some w_ExitingDefs) w_DefUse
              w_LiveOut (Map.empty :: (nat, nat) DependenceMap) w_st0 = Inr st2
          \<and> ExplicitAccesses st2 = [0 \<mapsto> 0xCF, 1 \<mapsto> 0xC7, 2 \<mapsto> 0xFB, 8 \<mapsto> 0xCA, 9 \<mapsto> 0xC2]
          \<and> set (NodeTraits st2 0) = {0, 1, 2, 8, 9})
   \<and> dropSharedFlag w_H (dropUnitFlag w_H 0xCF) = bits w_H Private
   \<and> (\<exists>st2. resolveAccesses w_H w_AT_shared (Some w_LatchDefs) (Some w_ExitingDefs) w_DefUse
              w_LiveOut (Map.empty :: (nat, nat) DependenceMap) w_st0 = Inr st2
          \<and> ExplicitAccesses st2 = [0 \<mapsto> 0xCB, 1 \<mapsto> 0xC7, 8 \<mapsto> 0xCA, 9 \<mapsto> 0xC2])
   \<and> dropSharedFlag w_H (dropUnitFlag w_H 0xCB) \<noteq> bits w_H Private"
proof -
  have wf: "list_all (\<lambda>l. find_em w_AT l \<noteq> None) (getExplicitAccesses w_DefUse)"
    by (simp add: w_DefUse_def w_AT_def)
  have wf2: "list_all (\<lambda>l. find_em w_AT_shared l \<noteq> None) (getExplicitAccesses w_DefUse)"
    by (simp add: w_DefUse_def w_AT_shared_def)
  from resolveAccesses_private_cases[OF wf, of w_H w_LatchDefs w_ExitingDefs w_LiveOut
      "Map.empty :: (nat, nat) DependenceMap" w_st0]
  obtain st2 where st2:
    "resolveAccesses w_H w_AT (Some w_LatchDefs) (Some w_ExitingDefs) w_DefUse
              w_LiveOut (Map.empty :: (nat, nat) DependenceMap) w_st0 = Inr st2"
    "\<forall>B. ExplicitAccesses st2 B =
            (if \<exists>l \<in> set (getExplicitAccesses w_DefUse). find_em w_AT l = Some B
             then Some (fold (\<lambda>l T. T AND access_trait w_H w_DefUse w_LiveOut w_LatchDefs w_ExitingDefs
                                        (SharedTrait_DefTrait (Map.empty :: (nat, nat) DependenceMap) B) l)
                          (filter (\<lambda>l. find_em w_AT l = Some B) (getExplicitAccesses w_DefUse))
                          (curr_trait w_H (ExplicitAccesses w_st0) B))
             else ExplicitAccesses w_st0 B)"
    "\<forall>n. set (NodeTraits st2 n) = set (NodeTraits w_st0 n)
             \<union> {B. getAliasNode w_AT B = n \<and> ExplicitAccesses w_st0 B = None
                    \<and> (\<exists>l \<in> set (getExplicitAccesses w_DefUse). find_em w_AT l = Some B)}"
    by (elim exE conjE) (rule that)
  from resolveAccesses_private_cases[OF wf2, of w_H w_LatchDefs w_ExitingDefs w_LiveOut
      "Map.empty :: (nat, nat) DependenceMap" w_st0]
  obtain st3 where st3:
    "resolveAccesses w_H w_AT_shared (Some w_LatchDefs) (Some w_ExitingDefs) w_DefUse
              w_LiveOut (Map.empty :: (nat, nat) DependenceMap) w_st0 = Inr st3"
    "\<forall>B. ExplicitAccesses st3 B =
            (if \<exists>l \<in> set (getExplicitAccesses w_DefUse). find_em w_AT_shared l = Some B
             then Some (fold (\<lambda>l T. T AND access_trait w_H w_DefUse w_LiveOut w_LatchDefs w_ExitingDefs
                                        (SharedTrait_DefTrait (Map.empty :: (nat, nat) DependenceMap) B) l)
                          (filter (\<lambda>l. find_em w_AT_shared l = Some B) (getExplicitAccesses w_DefUse))
                          (curr_trait w_H (ExplicitAccesses w_st0) B))
             else ExplicitAccesses w_st0 B)"
    by (elim exE conjE) (rule that)
  have sh: "SharedTrait_DefTrait (Map.empty :: (nat, nat) DependenceMap) l = (Shared, Shared)" for l
    by (simp add: SharedTrait_DefTrait_def)
  have cur: "curr_trait w_H (ExplicitAccesses w_st0) l = 0xFF" for l :: nat
    by (simp add: curr_trait_def w_st0_def BitMemoryTrait_default_def w_H_def)
  have acc: "access_trait w_H w_DefUse w_LiveOut w_LatchDefs w_ExitingDefs (Shared, Shared) 0 = 0xCF"
    "access_trait w_H w_DefUse w_LiveOut w_LatchDefs w_ExitingDefs (Shared, Shared) 1 = 0xC7"
    "access_trait w_H w_DefUse w_LiveOut w_LatchDefs w_ExitingDefs (Shared, Shared) 2 = 0xFB"
    "access_trait w_H w_DefUse w_LiveOut w_LatchDefs w_ExitingDefs (Shared, Shared) 8 = 0xCA"
    "access_trait w_H w_DefUse w_LiveOut w_LatchDefs w_ExitingDefs (Shared, Shared) 9 = 0xC2"
    by (simp_all add: access_trait_def w_DefUse_def w_LiveOut_def w_LatchDefs_def
        w_ExitingDefs_def w_H_def)
  have acc1: "access_trait w_H w_DefUse w_LiveOut w_LatchDefs w_ExitingDefs (Shared, Shared) (Suc 0)
      = 0xC7"
    using acc(2) by simp
  have ls: "getExplicitAccesses w_DefUse = [0, 1, 2, 8, 9]" by (simp add: w_DefUse_def)
  have e2: "ExplicitAccesses st2 = [0 \<mapsto> 0xCF, 1 \<mapsto> 0xC7, 2 \<mapsto> 0xFB, 8 \<mapsto> 0xCA, 9 \<mapsto> 0xC2]"
  proof (rule ext)
    fix B
    show "ExplicitAccesses st2 B = [0 \<mapsto> 0xCF, 1 \<mapsto> 0xC7, 2 \<mapsto> 0xFB, 8 \<mapsto> 0xCA, 9 \<mapsto> 0xC2] B"
      unfolding st2(2)[rule_format, of B] sh cur ls
      by (simp add: w_AT_def acc acc1 w_st0_def)
  qed
  have n2: "set (NodeTraits st2 0) = {0, 1, 2, 8, 9}"
    unfolding st2(3)[rule_format, of 0] ls
    by (auto simp: w_AT_def w_st0_def)
  have e3: "ExplicitAccesses st3 = [0 \<mapsto> 0xCB, 1 \<mapsto> 0xC7, 8 \<mapsto> 0xCA, 9 \<mapsto> 0xC2]"
  proof (rule ext)
    fix B
    show "ExplicitAccesses st3 B = [0 \<mapsto> 0xCB, 1 \<mapsto> 0xC7, 8 \<mapsto> 0xCA, 9 \<mapsto> 0xC2] B"
      unfolding st3(2)[rule_format, of B] sh cur ls
      by (simp add: w_AT_shared_def acc acc1 w_st0_def)
  qed
  have p: "dropSharedFlag w_H (dropUnitFlag w_H 0xCF) = bits w_H Private"
    "dropSharedFlag w_H (dropUnitFlag w_H 0xCB) \<noteq> bits w_H Private"
    by (simp_all add: w_H_def)
  from st2(1) e2 n2 st3(1) e3 p show ?thesis by blast
qed

text \<open>
  C8 (as amended). In \<^verbatim>\<open>resolveAccesses\<close>, \<^verbatim>\<open>SharedTrait\<close> and \<^verbatim>\<open>DefTrait\<close> both equal
  \<^verbatim>\<open>Shared\<close> exactly when the region of the location has no entry in the dependence
  map; when it has one, \<^verbatim>\<open>DefTrait\<close> is \<^verbatim>\<open>Dependency\<close> and \<^verbatim>\<open>SharedTrait\<close> is \<^verbatim>\<open>NoAccess\<close>.
  So a location used before being defined and (may-)defined in the loop gets
  \<^verbatim>\<open>Dependency\<close> or \<^verbatim>\<open>Shared\<close> conjoined, and a location that is neither used before
  being defined nor live after the loop gets \<^verbatim>\<open>Private & NoAccess\<close> or
  \<^verbatim>\<open>Private & Shared\<close>.
\<close>

theorem SharedTrait_DefTrait_values:
  "(Base \<notin> dom Deps \<longrightarrow> SharedTrait_DefTrait Deps Base = (Shared, Shared))
   \<and> (Base \<in> dom Deps \<longrightarrow> SharedTrait_DefTrait Deps Base = (NoAccess, Dependency))
   \<and> (SharedTrait_DefTrait Deps Base = (Shared, Shared) \<longleftrightarrow> Base \<notin> dom Deps)
   \<and> (find_em AT Loc = Some Base \<and> hasUse DefUse Loc
        \<and> (hasMayDef DefUse Loc \<or> hasDef DefUse Loc)
       \<longrightarrow> (\<exists>st'. resolveAccess H AT DefUse LiveOut LatchDefs ExitingDefs Deps Loc st = Inr st'
             \<and> ExplicitAccesses st' Base
                 = Some (curr_trait H (ExplicitAccesses st) Base
                         AND bits H (if Base \<in> dom Deps then Dependency else Shared))))
   \<and> (find_em AT Loc = Some Base \<and> \<not> hasUse DefUse Loc \<and> \<not> overlap LiveOut Loc
       \<longrightarrow> (\<exists>st'. resolveAccess H AT DefUse LiveOut LatchDefs ExitingDefs Deps Loc st = Inr st'
             \<and> ExplicitAccesses st' Base
                 = Some (curr_trait H (ExplicitAccesses st) Base
                         AND (bits H Private
                              AND bits H (if Base \<in> dom Deps then NoAccess else Shared)))))"
proof (intro conjI impI)
  show "SharedTrait_DefTrait Deps Base = (Shared, Shared)" if "Base \<notin> dom Deps"
    using that by (simp add: SharedTrait_DefTrait_def)
  show "SharedTrait_DefTrait Deps Base = (NoAccess, Dependency)" if "Base \<in> dom Deps"
    using that by (simp add: SharedTrait_DefTrait_def)
  show "SharedTrait_DefTrait Deps Base = (Shared, Shared) \<longleftrightarrow> Base \<notin> dom Deps"
    by (simp add: SharedTrait_DefTrait_def)
next
  assume a: "find_em AT Loc = Some Base \<and> hasUse DefUse Loc
        \<and> (hasMayDef DefUse Loc \<or> hasDef DefUse Loc)"
  then have f: "find_em AT Loc = Some Base" by simp
  from resolveAccess_result[OF f, of H DefUse LiveOut LatchDefs ExitingDefs Deps st]
  obtain st' where st':
    "resolveAccess H AT DefUse LiveOut LatchDefs ExitingDefs Deps Loc st = Inr st'"
    "ExplicitAccesses st' = (ExplicitAccesses st)
          (Base \<mapsto> curr_trait H (ExplicitAccesses st) Base
               AND access_trait H DefUse LiveOut LatchDefs ExitingDefs
                     (SharedTrait_DefTrait Deps Base) Loc)"
    by (elim exE conjE) (rule that)
  have "access_trait H DefUse LiveOut LatchDefs ExitingDefs (SharedTrait_DefTrait Deps Base) Loc
        = bits H (if Base \<in> dom Deps then Dependency else Shared)"
    using a by (auto simp: access_trait_def SharedTrait_DefTrait_def)
  with st' show "\<exists>st'. resolveAccess H AT DefUse LiveOut LatchDefs ExitingDefs Deps Loc st = Inr st'
             \<and> ExplicitAccesses st' Base
                 = Some (curr_trait H (ExplicitAccesses st) Base
                         AND bits H (if Base \<in> dom Deps then Dependency else Shared))"
    by (intro exI[of _ st']) simp
next
  assume a: "find_em AT Loc = Some Base \<and> \<not> hasUse DefUse Loc \<and> \<not> overlap LiveOut Loc"
  then have f: "find_em AT Loc = Some Base" by simp
  from resolveAccess_result[OF f, of H DefUse LiveOut LatchDefs ExitingDefs Deps st]
  obtain st' where st':
    "resolveAccess H AT DefUse LiveOut LatchDefs ExitingDefs Deps Loc st = Inr st'"
    "ExplicitAccesses st' = (ExplicitAccesses st)
          (Base \<mapsto> curr_trait H (ExplicitAccesses st) Base
               AND access_trait H DefUse LiveOut LatchDefs ExitingDefs
                     (SharedTrait_DefTrait Deps Base) Loc)"
    by (elim exE conjE) (rule that)
  have "access_trait H DefUse LiveOut LatchDefs ExitingDefs (SharedTrait_DefTrait Deps Base) Loc
        = bits H Private AND bits H (if Base \<in> dom Deps then NoAccess else Shared)"
    using a by (auto simp: access_trait_def SharedTrait_DefTrait_def)
  with st' show "\<exists>st'. resolveAccess H AT DefUse LiveOut LatchDefs ExitingDefs Deps Loc st = Inr st'
             \<and> ExplicitAccesses st' Base
                 = Some (curr_trait H (ExplicitAccesses st) Base
                         AND (bits H Private
                              AND bits H (if Base \<in> dom Deps then NoAccess else Shared)))"
    by (intro exI[of _ st']) simp
qed

theorem SharedTrait_DefTrait_values_witness:
  "0 \<in> dom w_Deps0 \<and> SharedTrait_DefTrait w_Deps0 0 = (NoAccess, Dependency)
   \<and> 1 \<notin> dom w_Deps0 \<and> SharedTrait_DefTrait w_Deps0 1 = (Shared, Shared)
   \<and> (\<exists>st'. resolveAccess w_H w_AT w_DefUse w_LiveOut w_LatchDefs w_ExitingDefs w_Deps0 0 w_st0
               = Inr st'
         \<and> ExplicitAccesses st' 0 = Some 0xEF)"
proof -
  have d: "0 \<in> dom w_Deps0" "1 \<notin> dom w_Deps0" by (simp_all add: w_Deps0_def)
  have h: "find_em w_AT 0 = Some 0 \<and> \<not> hasUse w_DefUse 0 \<and> \<not> overlap w_LiveOut 0"
    by (simp add: w_AT_def w_DefUse_def w_LiveOut_def)
  have cur: "curr_trait w_H (ExplicitAccesses w_st0) 0 = 0xFF"
    by (simp add: curr_trait_def w_st0_def BitMemoryTrait_default_def w_H_def)
  note a = SharedTrait_DefTrait_values[where Deps = w_Deps0 and Base = 0 and AT = w_AT
      and Loc = 0 and DefUse = w_DefUse and LiveOut = w_LiveOut and H = w_H
      and LatchDefs = w_LatchDefs and ExitingDefs = w_ExitingDefs and st = w_st0]
  note b = SharedTrait_DefTrait_values[where Deps = w_Deps0 and Base = 1 and AT = w_AT
      and Loc = 1 and DefUse = w_DefUse and LiveOut = w_LiveOut and H = w_H
      and LatchDefs = w_LatchDefs and ExitingDefs = w_ExitingDefs and st = w_st0]
  from a d h have a5: "\<exists>st'. resolveAccess w_H w_AT w_DefUse w_LiveOut w_LatchDefs w_ExitingDefs
         w_Deps0 0 w_st0 = Inr st'
         \<and> ExplicitAccesses st' 0 = Some (curr_trait w_H (ExplicitAccesses w_st0) 0
                         AND (bits w_H Private AND bits w_H NoAccess))"
    by simp
  then have a5': "\<exists>st'. resolveAccess w_H w_AT w_DefUse w_LiveOut w_LatchDefs w_ExitingDefs
         w_Deps0 0 w_st0 = Inr st' \<and> ExplicitAccesses st' 0 = Some 0xEF"
    unfolding cur by (simp add: w_H_def)
  from a d(1) have a2: "SharedTrait_DefTrait w_Deps0 0 = (NoAccess, Dependency)" by simp
  from b d(2) have b1: "SharedTrait_DefTrait w_Deps0 1 = (Shared, Shared)" by simp
  from d a2 b1 a5' show ?thesis by simp
qed

text \<open>
  The claim as stated uses \<^verbatim>\<open>Dependency\<close> for both variables when a dependence is
  recorded. For region 0, which has a record, \<^verbatim>\<open>SharedTrait\<close> is \<^verbatim>\<open>NoAccess\<close>, and the
  value conjoined for the private location 0 is \<^verbatim>\<open>Private\<close>, not
  \<^verbatim>\<open>Private & Dependency\<close>.
\<close>

theorem SharedTrait_recorded_counterexample:
  "0 \<in> dom w_Deps0
   \<and> fst (SharedTrait_DefTrait w_Deps0 0) = NoAccess
   \<and> fst (SharedTrait_DefTrait w_Deps0 0) \<noteq> Dependency
   \<and> bits w_H (fst (SharedTrait_DefTrait w_Deps0 0)) \<noteq> bits w_H Dependency
   \<and> access_trait w_H w_DefUse w_LiveOut w_LatchDefs w_ExitingDefs
        (SharedTrait_DefTrait w_Deps0 0) 0 = bits w_H Private
   \<and> bits w_H Private \<noteq> bits w_H Private AND bits w_H Dependency"
  by (simp add: w_Deps0_def SharedTrait_DefTrait_def access_trait_def w_DefUse_def
      w_LiveOut_def w_H_def)

section \<open>Properties of \<^verbatim>\<open>resolvePointers\<close>\<close>

lemma resolvePointer_cases:
  assumes "LoadInst_of Loc = Some LI" "find_em AT Loc = Some EM" "EA EM = Some T"
  shows "dropSharedFlag H (dropUnitFlag H T) = bits H Private
           \<or> dropUnitFlag H T = bits H Readonly \<or> dropUnitFlag H T = bits H Shared
         \<Longrightarrow> resolvePointer H AT LoadInst_of Loc EA = Inr EA"
    and "\<not> (dropSharedFlag H (dropUnitFlag H T) = bits H Private
           \<or> dropUnitFlag H T = bits H Readonly \<or> dropUnitFlag H T = bits H Shared)
         \<Longrightarrow> find_em AT LI = Some Ptr \<Longrightarrow> EA Ptr = Some PT
         \<Longrightarrow> dropUnitFlag H PT = bits H Readonly
         \<Longrightarrow> resolvePointer H AT LoadInst_of Loc EA = Inr EA"
    and "\<not> (dropSharedFlag H (dropUnitFlag H T) = bits H Private
           \<or> dropUnitFlag H T = bits H Readonly \<or> dropUnitFlag H T = bits H Shared)
         \<Longrightarrow> find_em AT LI = Some Ptr \<Longrightarrow> EA Ptr = Some PT
         \<Longrightarrow> dropUnitFlag H PT \<noteq> bits H Readonly
         \<Longrightarrow> resolvePointer H AT LoadInst_of Loc EA = Inr (EA(EM \<mapsto> T AND bits H Dependency))"
  using assms by (simp_all add: resolvePointer_def)

lemma resolvePointer_step:
  assumes "traits_initialized AT LoadInst_of (dom EA) [Loc]"
  shows "\<exists>EA1. resolvePointer H AT LoadInst_of Loc EA = Inr EA1 \<and> dom EA1 = dom EA
     \<and> (\<forall>e. EA1 e = EA e
            \<or> (\<exists>T. EA e = Some T \<and> EA1 e = Some (T AND bits H Dependency)
                   \<and> LoadInst_of Loc \<noteq> None \<and> find_em AT Loc = Some e))"
proof (cases "LoadInst_of Loc")
  case None
  then show ?thesis by (simp add: resolvePointer_def)
next
  case (Some LI)
  with assms obtain EM T Ptr PT where
    f: "find_em AT Loc = Some EM" "EA EM = Some T" "find_em AT LI = Some Ptr" "EA Ptr = Some PT"
    by (auto simp: traits_initialized_def split: option.splits)
  show ?thesis
  proof (cases "(dropSharedFlag H (dropUnitFlag H T) = bits H Private
           \<or> dropUnitFlag H T = bits H Readonly \<or> dropUnitFlag H T = bits H Shared)
           \<or> dropUnitFlag H PT = bits H Readonly")
    case True
    then have "resolvePointer H AT LoadInst_of Loc EA = Inr EA"
      using Some f by (auto simp: resolvePointer_def)
    then show ?thesis by simp
  next
    case False
    then have r: "resolvePointer H AT LoadInst_of Loc EA = Inr (EA(EM \<mapsto> T AND bits H Dependency))"
      using Some f by (auto simp: resolvePointer_def)
    have d: "dom (EA(EM \<mapsto> T AND bits H Dependency)) = dom EA"
      using f(2) by auto
    show ?thesis
      unfolding r using d f(1,2) Some
      by (intro exI[of _ "EA(EM \<mapsto> T AND bits H Dependency)"]) auto
  qed
qed

lemma resolvePointers_loop:
  assumes "traits_initialized AT LoadInst_of (dom EA) Locs"
  shows "\<exists>EA'. resolvePointers H AT LoadInst_of Locs EA = Inr EA' \<and> dom EA' = dom EA
     \<and> (\<forall>e. EA' e = EA e
            \<or> (\<exists>T. EA e = Some T \<and> EA' e = Some (T AND bits H Dependency)
                   \<and> (\<exists>Loc \<in> set Locs. LoadInst_of Loc \<noteq> None \<and> find_em AT Loc = Some e)))"
  using assms
proof (induction Locs arbitrary: EA)
  case Nil
  show ?case by simp
next
  case (Cons L Locs)
  from Cons.prems have h: "traits_initialized AT LoadInst_of (dom EA) [L]"
    and t: "traits_initialized AT LoadInst_of (dom EA) Locs"
    by (simp_all add: traits_initialized_def)
  from resolvePointer_step[OF h, of H]
  obtain EA1 where EA1: "resolvePointer H AT LoadInst_of L EA = Inr EA1" "dom EA1 = dom EA"
    "\<forall>e. EA1 e = EA e
            \<or> (\<exists>T. EA e = Some T \<and> EA1 e = Some (T AND bits H Dependency)
                   \<and> LoadInst_of L \<noteq> None \<and> find_em AT L = Some e)"
    by (elim exE conjE) (rule that)
  from t EA1(2) have t1: "traits_initialized AT LoadInst_of (dom EA1) Locs" by simp
  from Cons.IH[OF t1]
  obtain EA' where EA': "resolvePointers H AT LoadInst_of Locs EA1 = Inr EA'" "dom EA' = dom EA1"
    "\<forall>e. EA' e = EA1 e
            \<or> (\<exists>T. EA1 e = Some T \<and> EA' e = Some (T AND bits H Dependency)
                   \<and> (\<exists>Loc \<in> set Locs. LoadInst_of Loc \<noteq> None \<and> find_em AT Loc = Some e))"
    by (elim exE conjE) (rule that)
  have run: "resolvePointers H AT LoadInst_of (L # Locs) EA = Inr EA'"
    using EA1(1) EA'(1) by simp
  have each: "EA' e = EA e
            \<or> (\<exists>T. EA e = Some T \<and> EA' e = Some (T AND bits H Dependency)
                   \<and> (\<exists>Loc \<in> set (L # Locs). LoadInst_of Loc \<noteq> None \<and> find_em AT Loc = Some e))"
    for e
  proof -
    from EA1(3) have a: "EA1 e = EA e
            \<or> (\<exists>T. EA e = Some T \<and> EA1 e = Some (T AND bits H Dependency)
                   \<and> LoadInst_of L \<noteq> None \<and> find_em AT L = Some e)" by (rule spec)
    from EA'(3) have b: "EA' e = EA1 e
            \<or> (\<exists>T. EA1 e = Some T \<and> EA' e = Some (T AND bits H Dependency)
                   \<and> (\<exists>Loc \<in> set Locs. LoadInst_of Loc \<noteq> None \<and> find_em AT Loc = Some e))"
      by (rule spec)
    have idem: "(T AND bits H Dependency) AND bits H Dependency = T AND bits H Dependency" for T
      by (simp add: and.assoc)
    from a b show ?thesis
      by (elim disjE exE conjE) (auto simp: idem)
  qed
  show ?case
    using run EA'(2) EA1(2) each by (intro exI[of _ EA']) simp
qed

lemma resolvePointer_keeps_resolved:
  assumes "resolvePointer H AT LoadInst_of L EA = Inr EA1" "EA e = Some T" "already_resolved H T"
  shows "EA1 e = Some T"
  using assms
  by (auto simp: resolvePointer_def already_resolved_def split: option.splits if_splits)

lemma resolvePointer_keeps_readonly_pointer:
  assumes "resolvePointer H AT LoadInst_of L EA = Inr EA1" "EA e = Some T"
    and "\<forall>LI. LoadInst_of L = Some LI \<and> find_em AT L = Some e
           \<longrightarrow> (\<exists>PT. pointer_trait AT EA LI = Some PT \<and> dropUnitFlag H PT = bits H Readonly)"
  shows "EA1 e = Some T"
  using assms
  by (auto simp: resolvePointer_def pointer_trait_def split: option.splits if_splits)

lemma resolvePointers_keeps_resolved:
  assumes "resolvePointers H AT LoadInst_of Locs EA = Inr EA'" "EA e = Some T"
    "already_resolved H T"
  shows "EA' e = Some T"
  using assms
proof (induction Locs arbitrary: EA)
  case Nil
  then show ?case by simp
next
  case (Cons L Locs)
  from Cons.prems(1) obtain EA1 where
    s: "resolvePointer H AT LoadInst_of L EA = Inr EA1"
    and r: "resolvePointers H AT LoadInst_of Locs EA1 = Inr EA'"
    by (auto split: sum.splits)
  from resolvePointer_keeps_resolved[OF s Cons.prems(2,3)] have "EA1 e = Some T" .
  from Cons.IH[OF r this Cons.prems(3)] show ?case .
qed

lemma resolvePointers_keeps_readonly_pointer:
  assumes "resolvePointers H AT LoadInst_of Locs EA = Inr EA'" "EA e = Some T"
    and "\<forall>Loc \<in> set Locs. \<forall>LI. LoadInst_of Loc = Some LI \<and> find_em AT Loc = Some e
           \<longrightarrow> (\<exists>PT. pointer_trait AT EA LI = Some PT \<and> dropUnitFlag H PT = bits H Readonly)"
  shows "EA' e = Some T"
  using assms
proof (induction Locs arbitrary: EA)
  case Nil
  then show ?case by simp
next
  case (Cons L Locs)
  from Cons.prems(1) obtain EA1 where
    s: "resolvePointer H AT LoadInst_of L EA = Inr EA1"
    and r: "resolvePointers H AT LoadInst_of Locs EA1 = Inr EA'"
    by (auto split: sum.splits)
  from Cons.prems(3) have hd: "\<forall>LI. LoadInst_of L = Some LI \<and> find_em AT L = Some e
           \<longrightarrow> (\<exists>PT. pointer_trait AT EA LI = Some PT \<and> dropUnitFlag H PT = bits H Readonly)"
    by simp
  from resolvePointer_keeps_readonly_pointer[OF s Cons.prems(2) hd] have e1: "EA1 e = Some T" .
  have tl: "\<forall>Loc \<in> set Locs. \<forall>LI. LoadInst_of Loc = Some LI \<and> find_em AT Loc = Some e
           \<longrightarrow> (\<exists>PT. pointer_trait AT EA1 LI = Some PT \<and> dropUnitFlag H PT = bits H Readonly)"
  proof (intro ballI allI impI)
    fix Loc LI
    assume m: "Loc \<in> set Locs" and l: "LoadInst_of Loc = Some LI \<and> find_em AT Loc = Some e"
    from m have "Loc \<in> set (L # Locs)" by simp
    from Cons.prems(3)[rule_format, OF this l] obtain PT where
      p: "pointer_trait AT EA LI = Some PT" "dropUnitFlag H PT = bits H Readonly"
      by (elim exE conjE) (rule that)
    from p(1) obtain Ptr where q: "find_em AT LI = Some Ptr" "EA Ptr = Some PT"
      by (auto simp: pointer_trait_def split: option.splits)
    from p(2) have "already_resolved H PT" by (simp add: already_resolved_def)
    from resolvePointer_keeps_resolved[OF s q(2) this] have "EA1 Ptr = Some PT" .
    with q(1) p(2)
    show "\<exists>PT. pointer_trait AT EA1 LI = Some PT \<and> dropUnitFlag H PT = bits H Readonly"
      by (simp add: pointer_trait_def)
  qed
  from Cons.IH[OF r e1 tl] show ?case .
qed

lemma resolvePointer_change:
  assumes "resolvePointer H AT LoadInst_of L EA = Inr EA1"
  shows "EA1 e = EA e \<or> (\<exists>T. EA e = Some T \<and> EA1 e = Some (T AND bits H Dependency))"
  using assms
  by (auto simp: resolvePointer_def split: option.splits if_splits)

lemma resolvePointers_change:
  assumes "resolvePointers H AT LoadInst_of Locs EA = Inr EA'"
  shows "EA' e = EA e \<or> (\<exists>T. EA e = Some T \<and> EA' e = Some (T AND bits H Dependency))"
  using assms
proof (induction Locs arbitrary: EA)
  case Nil
  then show ?case by simp
next
  case (Cons L Locs)
  from Cons.prems(1) obtain EA1 where
    s: "resolvePointer H AT LoadInst_of L EA = Inr EA1"
    and r: "resolvePointers H AT LoadInst_of Locs EA1 = Inr EA'"
    by (auto split: sum.splits)
  have idem: "(T AND bits H Dependency) AND bits H Dependency = T AND bits H Dependency" for T
    by (simp add: and.assoc)
  from resolvePointer_change[OF s, of e] Cons.IH[OF r] show ?case
    by (elim disjE exE conjE) (auto simp: idem)
qed

lemma resolvePointers_demotes_region:
  assumes "resolvePointers H AT LoadInst_of Locs EA = Inr EA'"
    and "EA e = Some T" "\<not> already_resolved H T"
    and "Loc \<in> set Locs" "LoadInst_of Loc = Some LI" "find_em AT Loc = Some e"
    and "pointer_trait AT EA LI = Some PT"
    and "dropUnitFlag H PT \<noteq> bits H Readonly"
    and "dropUnitFlag H (PT AND bits H Dependency) \<noteq> bits H Readonly"
  shows "EA' e = Some (T AND bits H Dependency)"
  using assms
proof (induction Locs arbitrary: EA PT)
  case Nil
  then show ?case by simp
next
  case (Cons L Locs)
  from Cons.prems(1) obtain EA1 where
    s: "resolvePointer H AT LoadInst_of L EA = Inr EA1"
    and r: "resolvePointers H AT LoadInst_of Locs EA1 = Inr EA'"
    by (auto split: sum.splits)
  have idem: "(X AND bits H Dependency) AND bits H Dependency = X AND bits H Dependency" for X
    by (simp add: and.assoc)
  have fin: "EA' e = Some (T AND bits H Dependency)" if "EA1 e = Some (T AND bits H Dependency)"
    using resolvePointers_change[OF r, of e] that by (auto simp: idem)
  from Cons.prems(7) obtain Ptr where q: "find_em AT LI = Some Ptr" "EA Ptr = Some PT"
    by (auto simp: pointer_trait_def split: option.splits)
  show ?case
  proof (cases "Loc = L")
    case True
    with s Cons.prems(2,3,5,6,8) q have "EA1 = EA(e \<mapsto> T AND bits H Dependency)"
      by (simp add: resolvePointer_def already_resolved_def)
    then show ?thesis using fin by simp
  next
    case False
    with Cons.prems(4) have m: "Loc \<in> set Locs" by simp
    from resolvePointer_change[OF s, of e] Cons.prems(2)
    have "EA1 e = Some T \<or> EA1 e = Some (T AND bits H Dependency)" by auto
    then show ?thesis
    proof
      assume "EA1 e = Some (T AND bits H Dependency)"
      then show ?thesis by (rule fin)
    next
      assume e1: "EA1 e = Some T"
      from resolvePointer_change[OF s, of Ptr] q(2)
      have "EA1 Ptr = Some PT \<or> EA1 Ptr = Some (PT AND bits H Dependency)" by auto
      then show ?thesis
      proof
        assume "EA1 Ptr = Some PT"
        with q(1) have p1: "pointer_trait AT EA1 LI = Some PT" by (simp add: pointer_trait_def)
        from Cons.IH[OF r e1 Cons.prems(3) m Cons.prems(5,6) p1 Cons.prems(8,9)]
        show ?thesis .
      next
        assume "EA1 Ptr = Some (PT AND bits H Dependency)"
        with q(1) have p1: "pointer_trait AT EA1 LI = Some (PT AND bits H Dependency)"
          by (simp add: pointer_trait_def)
        from Cons.prems(9)
        have p2: "dropUnitFlag H ((PT AND bits H Dependency) AND bits H Dependency) \<noteq> bits H Readonly"
          by (simp add: idem)
        from Cons.IH[OF r e1 Cons.prems(3) m Cons.prems(5,6) p1 Cons.prems(9) p2]
        show ?thesis .
      qed
    qed
  qed
qed

text \<open>
  C9. For an explicitly accessed location whose address is loaded from memory,
  \<^verbatim>\<open>resolvePointers\<close> leaves the trait of its region unchanged if the trait is already
  \<^verbatim>\<open>Private\<close> (shared flag dropped), \<^verbatim>\<open>Readonly\<close> or \<^verbatim>\<open>Shared\<close> (unit flags dropped), or if
  the region the pointer is loaded from is \<^verbatim>\<open>Readonly\<close>; in every other case it conjoins
  \<^verbatim>\<open>Dependency\<close> into the trait. A location whose address is not loaded changes nothing.
  Over the whole list, with the traits initialised as the assertions require, the function
  returns a map with the same regions, in which every trait is either unchanged or is the
  old trait conjoined with \<^verbatim>\<open>Dependency\<close>, the latter only for the region of a location
  reached through a loaded pointer. The trait of a region is unchanged when it is already
  resolved, and when every loaded pointer through which a location of the region is
  reached is loaded from a \<^verbatim>\<open>Readonly\<close> region; it is the old trait conjoined with
  \<^verbatim>\<open>Dependency\<close> when the trait is not resolved and some location of the region is reached
  through a pointer loaded from a region that is not \<^verbatim>\<open>Readonly\<close>, before and after a
  demotion of its own.
\<close>

theorem resolvePointers_demotes:
  "(LoadInst_of Loc = None \<longrightarrow> resolvePointer H AT LoadInst_of Loc EA = Inr EA)
   \<and> (LoadInst_of Loc = Some LI \<and> find_em AT Loc = Some EM \<and> EA EM = Some T
        \<and> (dropSharedFlag H (dropUnitFlag H T) = bits H Private
             \<or> dropUnitFlag H T = bits H Readonly \<or> dropUnitFlag H T = bits H Shared)
       \<longrightarrow> resolvePointer H AT LoadInst_of Loc EA = Inr EA)
   \<and> (LoadInst_of Loc = Some LI \<and> find_em AT Loc = Some EM \<and> EA EM = Some T
        \<and> \<not> (dropSharedFlag H (dropUnitFlag H T) = bits H Private
             \<or> dropUnitFlag H T = bits H Readonly \<or> dropUnitFlag H T = bits H Shared)
        \<and> find_em AT LI = Some Ptr \<and> EA Ptr = Some PT
        \<and> dropUnitFlag H PT = bits H Readonly
       \<longrightarrow> resolvePointer H AT LoadInst_of Loc EA = Inr EA)
   \<and> (LoadInst_of Loc = Some LI \<and> find_em AT Loc = Some EM \<and> EA EM = Some T
        \<and> \<not> (dropSharedFlag H (dropUnitFlag H T) = bits H Private
             \<or> dropUnitFlag H T = bits H Readonly \<or> dropUnitFlag H T = bits H Shared)
        \<and> find_em AT LI = Some Ptr \<and> EA Ptr = Some PT
        \<and> dropUnitFlag H PT \<noteq> bits H Readonly
       \<longrightarrow> resolvePointer H AT LoadInst_of Loc EA = Inr (EA(EM \<mapsto> T AND bits H Dependency)))
   \<and> (already_resolved H T \<longleftrightarrow>
        dropSharedFlag H (dropUnitFlag H T) = bits H Private
        \<or> dropUnitFlag H T = bits H Readonly \<or> dropUnitFlag H T = bits H Shared)
   \<and> (traits_initialized AT LoadInst_of (dom EA) Locs
       \<longrightarrow> (\<exists>EA'. resolvePointers H AT LoadInst_of Locs EA = Inr EA'
             \<and> dom EA' = dom EA
             \<and> (\<forall>e. EA' e = EA e
                    \<or> (\<exists>T. EA e = Some T \<and> EA' e = Some (T AND bits H Dependency)
                          \<and> (\<exists>Loc \<in> set Locs. LoadInst_of Loc \<noteq> None
                                                \<and> find_em AT Loc = Some e)))
             \<and> (\<forall>e T. EA e = Some T \<and> already_resolved H T \<longrightarrow> EA' e = Some T)
             \<and> (\<forall>e T. EA e = Some T
                    \<and> (\<forall>Loc \<in> set Locs. \<forall>LI.
                          LoadInst_of Loc = Some LI \<and> find_em AT Loc = Some e
                          \<longrightarrow> (\<exists>PT. pointer_trait AT EA LI = Some PT
                                    \<and> dropUnitFlag H PT = bits H Readonly))
                  \<longrightarrow> EA' e = Some T)
             \<and> (\<forall>e T Loc LI PT. EA e = Some T \<and> \<not> already_resolved H T
                    \<and> Loc \<in> set Locs \<and> LoadInst_of Loc = Some LI \<and> find_em AT Loc = Some e
                    \<and> pointer_trait AT EA LI = Some PT
                    \<and> dropUnitFlag H PT \<noteq> bits H Readonly
                    \<and> dropUnitFlag H (PT AND bits H Dependency) \<noteq> bits H Readonly
                  \<longrightarrow> EA' e = Some (T AND bits H Dependency))))"
proof (intro conjI impI)
  show "resolvePointer H AT LoadInst_of Loc EA = Inr EA" if "LoadInst_of Loc = None"
    using that by (simp add: resolvePointer_def)
next
  assume "LoadInst_of Loc = Some LI \<and> find_em AT Loc = Some EM \<and> EA EM = Some T
        \<and> (dropSharedFlag H (dropUnitFlag H T) = bits H Private
             \<or> dropUnitFlag H T = bits H Readonly \<or> dropUnitFlag H T = bits H Shared)"
  then show "resolvePointer H AT LoadInst_of Loc EA = Inr EA"
    using resolvePointer_cases(1)[of LoadInst_of Loc LI AT EM EA T H] by simp
next
  assume "LoadInst_of Loc = Some LI \<and> find_em AT Loc = Some EM \<and> EA EM = Some T
        \<and> \<not> (dropSharedFlag H (dropUnitFlag H T) = bits H Private
             \<or> dropUnitFlag H T = bits H Readonly \<or> dropUnitFlag H T = bits H Shared)
        \<and> find_em AT LI = Some Ptr \<and> EA Ptr = Some PT
        \<and> dropUnitFlag H PT = bits H Readonly"
  then show "resolvePointer H AT LoadInst_of Loc EA = Inr EA"
    using resolvePointer_cases(2)[of LoadInst_of Loc LI AT EM EA T H Ptr PT] by simp
next
  assume "LoadInst_of Loc = Some LI \<and> find_em AT Loc = Some EM \<and> EA EM = Some T
        \<and> \<not> (dropSharedFlag H (dropUnitFlag H T) = bits H Private
             \<or> dropUnitFlag H T = bits H Readonly \<or> dropUnitFlag H T = bits H Shared)
        \<and> find_em AT LI = Some Ptr \<and> EA Ptr = Some PT
        \<and> dropUnitFlag H PT \<noteq> bits H Readonly"
  then show "resolvePointer H AT LoadInst_of Loc EA = Inr (EA(EM \<mapsto> T AND bits H Dependency))"
    using resolvePointer_cases(3)[of LoadInst_of Loc LI AT EM EA T H Ptr PT] by simp
next
  show "already_resolved H T \<longleftrightarrow>
        dropSharedFlag H (dropUnitFlag H T) = bits H Private
        \<or> dropUnitFlag H T = bits H Readonly \<or> dropUnitFlag H T = bits H Shared"
    by (simp add: already_resolved_def)
next
  assume t: "traits_initialized AT LoadInst_of (dom EA) Locs"
  from resolvePointers_loop[OF t, of H]
  obtain EA' where EA': "resolvePointers H AT LoadInst_of Locs EA = Inr EA'"
    "dom EA' = dom EA"
    "\<forall>e. EA' e = EA e
            \<or> (\<exists>T. EA e = Some T \<and> EA' e = Some (T AND bits H Dependency)
                   \<and> (\<exists>Loc \<in> set Locs. LoadInst_of Loc \<noteq> None \<and> find_em AT Loc = Some e))"
    by (elim exE conjE) (rule that)
  have k1: "\<forall>e T. EA e = Some T \<and> already_resolved H T \<longrightarrow> EA' e = Some T"
    using resolvePointers_keeps_resolved[OF EA'(1)] by blast
  have k2: "\<forall>e T. EA e = Some T
                    \<and> (\<forall>Loc \<in> set Locs. \<forall>LI.
                          LoadInst_of Loc = Some LI \<and> find_em AT Loc = Some e
                          \<longrightarrow> (\<exists>PT. pointer_trait AT EA LI = Some PT
                                    \<and> dropUnitFlag H PT = bits H Readonly))
                  \<longrightarrow> EA' e = Some T"
  proof (intro allI impI)
    fix e T
    assume a: "EA e = Some T
                    \<and> (\<forall>Loc \<in> set Locs. \<forall>LI.
                          LoadInst_of Loc = Some LI \<and> find_em AT Loc = Some e
                          \<longrightarrow> (\<exists>PT. pointer_trait AT EA LI = Some PT
                                    \<and> dropUnitFlag H PT = bits H Readonly))"
    show "EA' e = Some T"
      by (rule resolvePointers_keeps_readonly_pointer[OF EA'(1) a[THEN conjunct1] a[THEN conjunct2]])
  qed
  have k3: "\<forall>e T Loc LI PT. EA e = Some T \<and> \<not> already_resolved H T
                    \<and> Loc \<in> set Locs \<and> LoadInst_of Loc = Some LI \<and> find_em AT Loc = Some e
                    \<and> pointer_trait AT EA LI = Some PT
                    \<and> dropUnitFlag H PT \<noteq> bits H Readonly
                    \<and> dropUnitFlag H (PT AND bits H Dependency) \<noteq> bits H Readonly
                  \<longrightarrow> EA' e = Some (T AND bits H Dependency)"
  proof (intro allI impI)
    fix e T Loc LI PT
    assume a: "EA e = Some T \<and> \<not> already_resolved H T
                    \<and> Loc \<in> set Locs \<and> LoadInst_of Loc = Some LI \<and> find_em AT Loc = Some e
                    \<and> pointer_trait AT EA LI = Some PT
                    \<and> dropUnitFlag H PT \<noteq> bits H Readonly
                    \<and> dropUnitFlag H (PT AND bits H Dependency) \<noteq> bits H Readonly"
    then have b: "EA e = Some T" "\<not> already_resolved H T" "Loc \<in> set Locs"
      "LoadInst_of Loc = Some LI" "find_em AT Loc = Some e" "pointer_trait AT EA LI = Some PT"
      "dropUnitFlag H PT \<noteq> bits H Readonly"
      "dropUnitFlag H (PT AND bits H Dependency) \<noteq> bits H Readonly"
      by simp_all
    show "EA' e = Some (T AND bits H Dependency)"
      by (rule resolvePointers_demotes_region[OF EA'(1) b])
  qed
  show "(\<exists>EA'. resolvePointers H AT LoadInst_of Locs EA = Inr EA'
    \<and> dom EA' = dom EA
    \<and> (\<forall>e. EA' e = EA e
           \<or> (\<exists>T. EA e = Some T \<and> EA' e = Some (T AND bits H Dependency)
                 \<and> (\<exists>Loc \<in> set Locs. LoadInst_of Loc \<noteq> None
                                       \<and> find_em AT Loc = Some e)))
    \<and> (\<forall>e T. EA e = Some T \<and> already_resolved H T \<longrightarrow> EA' e = Some T)
    \<and> (\<forall>e T. EA e = Some T
           \<and> (\<forall>Loc \<in> set Locs. \<forall>LI.
                 LoadInst_of Loc = Some LI \<and> find_em AT Loc = Some e
                 \<longrightarrow> (\<exists>PT. pointer_trait AT EA LI = Some PT
                           \<and> dropUnitFlag H PT = bits H Readonly))
         \<longrightarrow> EA' e = Some T)
    \<and> (\<forall>e T Loc LI PT. EA e = Some T \<and> \<not> already_resolved H T
           \<and> Loc \<in> set Locs \<and> LoadInst_of Loc = Some LI \<and> find_em AT Loc = Some e
           \<and> pointer_trait AT EA LI = Some PT
           \<and> dropUnitFlag H PT \<noteq> bits H Readonly
           \<and> dropUnitFlag H (PT AND bits H Dependency) \<noteq> bits H Readonly
         \<longrightarrow> EA' e = Some (T AND bits H Dependency)))"
    using EA' k1 k2 k3 by (intro exI[of _ EA'] conjI)
qed

theorem resolvePointers_demotes_witness:
  "resolvePointer w_H w_AT w_LoadInst_of 0 w_EA = Inr w_EA
   \<and> resolvePointer w_H w_AT w_LoadInst_of 7 w_EA = Inr w_EA
   \<and> resolvePointer w_H w_AT w_LoadInst_of 5 w_EA = Inr w_EA
   \<and> resolvePointer w_H w_AT w_LoadInst_of 3 w_EA = Inr (w_EA(3 \<mapsto> 0xC0))
   \<and> resolvePointers w_H w_AT w_LoadInst_of [0, 7, 5, 3] w_EA = Inr (w_EA(3 \<mapsto> 0xC0))
   \<and> w_EA 3 = Some 0xE7 \<and> (w_EA(3 \<mapsto> 0xC0)) 3 = Some (0xE7 AND bits w_H Dependency)
   \<and> (w_EA(3 \<mapsto> 0xC0)) 4 = Some 0xDF \<and> (w_EA(3 \<mapsto> 0xC0)) 5 = Some 0xE7
   \<and> (w_EA(3 \<mapsto> 0xC0)) 6 = Some 0xFB \<and> (w_EA(3 \<mapsto> 0xC0)) 7 = Some 0xCF"
proof -
  note th = resolvePointers_demotes[where H = w_H and AT = w_AT and LoadInst_of = w_LoadInst_of
      and EA = w_EA and Locs = "[0, 7, 5, 3]"]
  have a0: "resolvePointer w_H w_AT w_LoadInst_of 0 w_EA = Inr w_EA"
    using th[where Loc = 0] by (simp add: w_LoadInst_of_def)
  have h7: "w_LoadInst_of 7 = Some 4 \<and> find_em w_AT 7 = Some 7 \<and> w_EA 7 = Some 0xCF
        \<and> (dropSharedFlag w_H (dropUnitFlag w_H 0xCF) = bits w_H Private
             \<or> dropUnitFlag w_H 0xCF = bits w_H Readonly \<or> dropUnitFlag w_H 0xCF = bits w_H Shared)"
    by (simp add: w_LoadInst_of_def w_AT_def w_EA_def w_H_def)
  have a7: "resolvePointer w_H w_AT w_LoadInst_of 7 w_EA = Inr w_EA"
    using th[where Loc = 7 and LI = 4 and EM = 7 and T = "0xCF",
        THEN conjunct2, THEN conjunct1, rule_format, OF h7] .
  have h5: "w_LoadInst_of 5 = Some 6 \<and> find_em w_AT 5 = Some 5 \<and> w_EA 5 = Some 0xE7
        \<and> \<not> (dropSharedFlag w_H (dropUnitFlag w_H 0xE7) = bits w_H Private
             \<or> dropUnitFlag w_H 0xE7 = bits w_H Readonly \<or> dropUnitFlag w_H 0xE7 = bits w_H Shared)
        \<and> find_em w_AT 6 = Some 6 \<and> w_EA 6 = Some 0xFB
        \<and> dropUnitFlag w_H 0xFB = bits w_H Readonly"
    by (simp add: w_LoadInst_of_def w_AT_def w_EA_def w_H_def)
  have a5: "resolvePointer w_H w_AT w_LoadInst_of 5 w_EA = Inr w_EA"
    using th[where Loc = 5 and LI = 6 and EM = 5 and T = "0xE7" and Ptr = 6 and PT = "0xFB",
        THEN conjunct2, THEN conjunct2, THEN conjunct1, rule_format, OF h5] .
  have h3: "w_LoadInst_of 3 = Some 4 \<and> find_em w_AT 3 = Some 3 \<and> w_EA 3 = Some 0xE7
        \<and> \<not> (dropSharedFlag w_H (dropUnitFlag w_H 0xE7) = bits w_H Private
             \<or> dropUnitFlag w_H 0xE7 = bits w_H Readonly \<or> dropUnitFlag w_H 0xE7 = bits w_H Shared)
        \<and> find_em w_AT 4 = Some 4 \<and> w_EA 4 = Some 0xDF
        \<and> dropUnitFlag w_H 0xDF \<noteq> bits w_H Readonly"
    by (simp add: w_LoadInst_of_def w_AT_def w_EA_def w_H_def)
  have "resolvePointer w_H w_AT w_LoadInst_of 3 w_EA = Inr (w_EA(3 \<mapsto> 0xE7 AND bits w_H Dependency))"
    using th[where Loc = 3 and LI = 4 and EM = 3 and T = "0xE7" and Ptr = 4 and PT = "0xDF",
        THEN conjunct2, THEN conjunct2, THEN conjunct2, THEN conjunct1, rule_format, OF h3] .
  then have a3: "resolvePointer w_H w_AT w_LoadInst_of 3 w_EA = Inr (w_EA(3 \<mapsto> 0xC0))"
    by (simp add: w_H_def)
  have wf: "traits_initialized w_AT w_LoadInst_of (dom w_EA) [0, 7, 5, 3]"
    by (simp add: traits_initialized_def w_LoadInst_of_def w_AT_def w_EA_def)
  from th[THEN conjunct2, THEN conjunct2, THEN conjunct2, THEN conjunct2, THEN conjunct2,
      rule_format, OF wf]
  obtain EA' where EA': "resolvePointers w_H w_AT w_LoadInst_of [0, 7, 5, 3] w_EA = Inr EA'"
    "dom EA' = dom w_EA"
    "\<forall>e T. w_EA e = Some T \<and> already_resolved w_H T \<longrightarrow> EA' e = Some T"
    "\<forall>e T. w_EA e = Some T
         \<and> (\<forall>Loc \<in> set [0, 7, 5, 3]. \<forall>LI.
                w_LoadInst_of Loc = Some LI \<and> find_em w_AT Loc = Some e
                \<longrightarrow> (\<exists>PT. pointer_trait w_AT w_EA LI = Some PT
                          \<and> dropUnitFlag w_H PT = bits w_H Readonly))
         \<longrightarrow> EA' e = Some T"
    "\<forall>e T Loc LI PT. w_EA e = Some T \<and> \<not> already_resolved w_H T
         \<and> Loc \<in> set [0, 7, 5, 3] \<and> w_LoadInst_of Loc = Some LI \<and> find_em w_AT Loc = Some e
         \<and> pointer_trait w_AT w_EA LI = Some PT
         \<and> dropUnitFlag w_H PT \<noteq> bits w_H Readonly
         \<and> dropUnitFlag w_H (PT AND bits w_H Dependency) \<noteq> bits w_H Readonly
         \<longrightarrow> EA' e = Some (T AND bits w_H Dependency)"
    by (elim exE conjE) (rule that)
  have g3: "w_EA 3 = Some 0xE7 \<and> \<not> already_resolved w_H 0xE7
         \<and> 3 \<in> set [0, 7, 5, 3::nat] \<and> w_LoadInst_of 3 = Some 4 \<and> find_em w_AT 3 = Some 3
         \<and> pointer_trait w_AT w_EA 4 = Some 0xDF
         \<and> dropUnitFlag w_H 0xDF \<noteq> bits w_H Readonly
         \<and> dropUnitFlag w_H (0xDF AND bits w_H Dependency) \<noteq> bits w_H Readonly"
    by (simp add: w_LoadInst_of_def w_AT_def w_EA_def w_H_def already_resolved_def pointer_trait_def)
  from EA'(5)[rule_format, OF g3] have e3: "EA' 3 = Some 0xC0" by (simp add: w_H_def)
  have g4: "w_EA 4 = Some 0xDF \<and> already_resolved w_H 0xDF"
    by (simp add: w_EA_def w_H_def already_resolved_def)
  from EA'(3)[rule_format, OF g4] have e4: "EA' 4 = Some 0xDF" .
  have g6: "w_EA 6 = Some 0xFB \<and> already_resolved w_H 0xFB"
    by (simp add: w_EA_def w_H_def already_resolved_def)
  from EA'(3)[rule_format, OF g6] have e6: "EA' 6 = Some 0xFB" .
  have g7: "w_EA 7 = Some 0xCF \<and> already_resolved w_H 0xCF"
    by (simp add: w_EA_def w_H_def already_resolved_def)
  from EA'(3)[rule_format, OF g7] have e7: "EA' 7 = Some 0xCF" .
  have g5: "w_EA 5 = Some 0xE7
         \<and> (\<forall>Loc \<in> set [0, 7, 5, 3]. \<forall>LI.
                w_LoadInst_of Loc = Some LI \<and> find_em w_AT Loc = Some 5
                \<longrightarrow> (\<exists>PT. pointer_trait w_AT w_EA LI = Some PT
                          \<and> dropUnitFlag w_H PT = bits w_H Readonly))"
    by (simp add: w_LoadInst_of_def w_AT_def w_EA_def w_H_def pointer_trait_def)
  from EA'(4)[rule_format, OF g5] have e5: "EA' 5 = Some 0xE7" .
  have out: "EA' e = None" if "e \<notin> {3, 4, 5, 6, 7}" for e
  proof -
    from that have "e \<notin> dom w_EA" by (simp add: w_EA_def)
    with EA'(2) show ?thesis by blast
  qed
  have eq: "EA' = w_EA(3 \<mapsto> 0xC0)"
  proof (rule ext)
    fix e
    show "EA' e = (w_EA(3 \<mapsto> 0xC0)) e"
    proof (cases "e \<in> {3, 4, 5, 6, 7}")
      case True
      then show ?thesis using e3 e4 e5 e6 e7 by (auto simp: w_EA_def)
    next
      case False
      then show ?thesis using out[OF False] by (simp add: w_EA_def)
    qed
  qed
  have vals: "w_EA 3 = Some 0xE7 \<and> (w_EA(3 \<mapsto> 0xC0)) 3 = Some (0xE7 AND bits w_H Dependency)
   \<and> (w_EA(3 \<mapsto> 0xC0)) 4 = Some 0xDF \<and> (w_EA(3 \<mapsto> 0xC0)) 5 = Some 0xE7
   \<and> (w_EA(3 \<mapsto> 0xC0)) 6 = Some 0xFB \<and> (w_EA(3 \<mapsto> 0xC0)) 7 = Some 0xCF"
    by (simp add: w_EA_def w_H_def)
  from a0 a7 a5 a3 EA'(1) eq vals show ?thesis by simp
qed

section \<open>Properties of the coverage closure\<close>

lemma growsD:
  assumes "grows DS DS'"
  shows "DS n = None \<Longrightarrow> DS' n = None"
    and "DS n = Some I \<Longrightarrow> DS' n = Some I \<or> DS' n = Some (I\<lparr> at_dptr := at_dptr I \<union> dep_traits \<rparr>)"
proof -
  from assms have a: "case DS n of None \<Rightarrow> DS' n = None
      | Some I \<Rightarrow> DS' n = Some I \<or> DS' n = Some (I\<lparr> at_dptr := at_dptr I \<union> dep_traits \<rparr>)"
    unfolding grows_def by (rule spec)
  show "DS n = None \<Longrightarrow> DS' n = None" using a by simp
  show "DS n = Some I \<Longrightarrow> DS' n = Some I \<or> DS' n = Some (I\<lparr> at_dptr := at_dptr I \<union> dep_traits \<rparr>)"
    using a by simp
qed

lemma grows_refl: "grows DS DS"
  by (simp add: grows_def split: option.splits)

lemma grows_trans:
  assumes "grows A B" "grows B C"
  shows "grows A C"
  unfolding grows_def
proof
  fix n
  from assms(1) have a: "case A n of None \<Rightarrow> B n = None
      | Some I \<Rightarrow> B n = Some I \<or> B n = Some (I\<lparr> at_dptr := at_dptr I \<union> dep_traits \<rparr>)"
    by (simp add: grows_def)
  from assms(2) have b: "case B n of None \<Rightarrow> C n = None
      | Some I \<Rightarrow> C n = Some I \<or> C n = Some (I\<lparr> at_dptr := at_dptr I \<union> dep_traits \<rparr>)"
    by (simp add: grows_def)
  show "case A n of None \<Rightarrow> C n = None
      | Some I \<Rightarrow> C n = Some I \<or> C n = Some (I\<lparr> at_dptr := at_dptr I \<union> dep_traits \<rparr>)"
  proof (cases "A n")
    case None
    with a b show ?thesis by simp
  next
    case (Some I)
    with a consider "B n = Some I" | "B n = Some (I\<lparr> at_dptr := at_dptr I \<union> dep_traits \<rparr>)"
      by auto
    then show ?thesis
    proof cases
      case 1
      with b Some show ?thesis by simp
    next
      case 2
      with b Some show ?thesis by (auto simp: Un_assoc)
    qed
  qed
qed

lemma set_dependence_grows: "grows DS (set_dependence D DS)"
  by (auto simp: grows_def set_dependence_def split: option.splits)

lemma fold_set_dependence_grows: "grows DS (fold set_dependence Ds DS)"
proof (induction Ds arbitrary: DS)
  case Nil
  show ?case by (simp add: grows_refl)
next
  case (Cons D Ds)
  show ?case
    using grows_trans[OF set_dependence_grows Cons.IH] by simp
qed

lemma fold_children_grows:
  "grows DS (fold (\<lambda>Child. fold set_dependence (df_nodes Child)) Cs DS)"
proof (induction Cs arbitrary: DS)
  case Nil
  show ?case by (simp add: grows_refl)
next
  case (Cons C Cs)
  show ?case
    using grows_trans[OF fold_set_dependence_grows Cons.IH] by simp
qed

lemma coverage_closure_grows: "grows DS (coverage_closure Coverage DS)"
  unfolding coverage_closure_def
proof (induction Coverage arbitrary: DS)
  case Nil
  show ?case by (simp add: grows_refl)
next
  case (Cons N Ns)
  show ?case
    using grows_trans[OF fold_children_grows Cons.IH] by simp
qed

lemma set_dependence_marks: "marked (set_dependence D DS) (node_id D)"
  by (auto simp: marked_def set_dependence_def split: option.splits)

lemma grows_marked:
  assumes "grows DS DS'" "marked DS n"
  shows "marked DS' n"
proof (cases "DS n")
  case None
  then have "DS' n = None" by (rule growsD(1)[OF assms(1)])
  then show ?thesis by (simp add: marked_def)
next
  case (Some I)
  with growsD(2)[OF assms(1)] consider "DS' n = Some I"
    | "DS' n = Some (I\<lparr> at_dptr := at_dptr I \<union> dep_traits \<rparr>)"
    by blast
  then show ?thesis
    using assms(2) Some by cases (auto simp: marked_def)
qed

lemma fold_set_dependence_marks:
  assumes "D \<in> set Ds"
  shows "marked (fold set_dependence Ds DS) (node_id D)"
  using assms
proof (induction Ds arbitrary: DS)
  case Nil
  then show ?case by simp
next
  case (Cons X Ds)
  show ?case
  proof (cases "D \<in> set Ds")
    case True
    then show ?thesis using Cons.IH by simp
  next
    case False
    with Cons.prems have "X = D" by simp
    then show ?thesis
      using grows_marked[OF fold_set_dependence_grows set_dependence_marks, of Ds D DS]
      by simp
  qed
qed

lemma fold_children_marks:
  assumes "C \<in> set Cs" "D \<in> set (df_nodes C)"
  shows "marked (fold (\<lambda>Child. fold set_dependence (df_nodes Child)) Cs DS) (node_id D)"
  using assms(1)
proof (induction Cs arbitrary: DS)
  case Nil
  then show ?case by simp
next
  case (Cons X Cs)
  show ?case
  proof (cases "C \<in> set Cs")
    case True
    then show ?thesis using Cons.IH by simp
  next
    case False
    with Cons.prems have "X = C" by simp
    then show ?thesis
      using grows_marked[OF fold_children_grows fold_set_dependence_marks[OF assms(2)],
          of Cs DS]
      by simp
  qed
qed

lemma coverage_closure_marks:
  assumes "N \<in> set Coverage" "C \<in> set (node_children N)" "D \<in> set (df_nodes C)"
  shows "marked (coverage_closure Coverage DS) (node_id D)"
  using assms(1) unfolding coverage_closure_def
proof (induction Coverage arbitrary: DS)
  case Nil
  then show ?case by simp
next
  case (Cons X Ns)
  show ?case
  proof (cases "N \<in> set Ns")
    case True
    then show ?thesis using Cons.IH by simp
  next
    case False
    with Cons.prems have "X = N" by simp
    then show ?thesis
      using grows_marked[OF coverage_closure_grows[unfolded coverage_closure_def]
          fold_children_marks[OF assms(2,3)], of Ns DS]
      by simp
  qed
qed

text \<open>
  C7. In the closing loops of \<^verbatim>\<open>propagateTraits\<close>, for every node of \<^verbatim>\<open>Coverage\<close> (the
  nodes whose subtree is covered by explicitly accessed regions), every strict descendant
  that has an entry in the dependency set and is not \<^verbatim>\<open>NoAccess\<close> ends with \<^verbatim>\<open>Flow\<close>,
  \<^verbatim>\<open>Anti\<close> and \<^verbatim>\<open>Output\<close> set in its descriptor. The step clears no trait of any entry: an
  entry keeps all its traits, gains at most these three, and keeps everything else; a node
  without an entry stays without one.
\<close>

theorem coverage_closure_adds_dependence:
  "(\<forall>N \<in> set Coverage. \<forall>C \<in> set (node_children N). \<forall>D \<in> set (df_nodes C). \<forall>I.
       DS (node_id D) = Some I \<and> trait_NoAccess \<notin> at_dptr I
       \<longrightarrow> coverage_closure Coverage DS (node_id D)
             = Some (I\<lparr> at_dptr := at_dptr I \<union> {trait_Flow, trait_Anti, trait_Output} \<rparr>))
   \<and> (\<forall>n I. DS n = Some I
       \<longrightarrow> (\<exists>I'. coverage_closure Coverage DS n = Some I'
              \<and> at_dptr I \<subseteq> at_dptr I'
              \<and> at_dptr I' \<subseteq> at_dptr I \<union> {trait_Flow, trait_Anti, trait_Output}
              \<and> at_dep I' = at_dep I \<and> at_accesses I' = at_accesses I
              \<and> at_unknowns I' = at_unknowns I))
   \<and> (\<forall>n. DS n = None \<longrightarrow> coverage_closure Coverage DS n = None)"
proof (intro conjI ballI allI impI)
  fix N C D I
  assume N: "N \<in> set Coverage" and C: "C \<in> set (node_children N)"
    and D: "D \<in> set (df_nodes C)"
    and I: "DS (node_id D) = Some I \<and> trait_NoAccess \<notin> at_dptr I"
  let ?R = "coverage_closure Coverage DS"
  let ?I' = "I\<lparr> at_dptr := at_dptr I \<union> dep_traits \<rparr>"
  from growsD(2)[OF coverage_closure_grows[of DS Coverage], of "node_id D" I] I
  consider "?R (node_id D) = Some I" | "?R (node_id D) = Some ?I'"
    by blast
  then have "?R (node_id D) = Some ?I'"
  proof cases
    case 1
    from coverage_closure_marks[OF N C D, of DS] 1 I
    have "dep_traits \<subseteq> at_dptr I" by (simp add: marked_def)
    then have "at_dptr I \<union> dep_traits = at_dptr I" by blast
    then have "?I' = I" by simp
    with 1 show ?thesis by simp
  next
    case 2
    then show ?thesis .
  qed
  then show "?R (node_id D)
      = Some (I\<lparr> at_dptr := at_dptr I \<union> {trait_Flow, trait_Anti, trait_Output} \<rparr>)"
    by (simp add: dep_traits_def)
next
  fix n I
  assume "DS n = Some I"
  from growsD(2)[OF coverage_closure_grows[of DS Coverage] this]
  show "\<exists>I'. coverage_closure Coverage DS n = Some I'
              \<and> at_dptr I \<subseteq> at_dptr I'
              \<and> at_dptr I' \<subseteq> at_dptr I \<union> {trait_Flow, trait_Anti, trait_Output}
              \<and> at_dep I' = at_dep I \<and> at_accesses I' = at_accesses I
              \<and> at_unknowns I' = at_unknowns I"
    by (auto simp: dep_traits_def)
next
  fix n
  assume "DS n = None"
  then show "coverage_closure Coverage DS n = None"
    by (rule growsD(1)[OF coverage_closure_grows[of DS Coverage]])
qed

theorem coverage_closure_adds_dependence_witness:
  "w_tree \<in> set [w_tree] \<and> AliasNode 1 [AliasNode 2 []] \<in> set (node_children w_tree)
   \<and> AliasNode 1 [AliasNode 2 []] \<in> set (df_nodes (AliasNode 1 [AliasNode 2 []]))
   \<and> w_DS 1 = Some (w_entry {trait_Readonly})
   \<and> trait_NoAccess \<notin> at_dptr (w_entry {trait_Readonly})
   \<and> coverage_closure [w_tree] w_DS 1
        = Some (w_entry ({trait_Readonly} \<union> {trait_Flow, trait_Anti, trait_Output}))
   \<and> w_DS 3 = None \<and> coverage_closure [w_tree] w_DS 3 = None
   \<and> (\<exists>I'. coverage_closure [w_tree] w_DS 2 = Some I'
          \<and> {trait_NoAccess} \<subseteq> at_dptr I')"
proof -
  have m: "w_tree \<in> set [w_tree]"
    "AliasNode 1 [AliasNode 2 []] \<in> set (node_children w_tree)"
    "AliasNode 1 [AliasNode 2 []] \<in> set (df_nodes (AliasNode 1 [AliasNode 2 []]))"
    by (simp_all add: w_tree_def)
  have d: "w_DS (node_id (AliasNode 1 [AliasNode 2 []])) = Some (w_entry {trait_Readonly})
       \<and> trait_NoAccess \<notin> at_dptr (w_entry {trait_Readonly})"
    by (simp add: w_DS_def w_entry_def)
  have d2: "w_DS 2 = Some (w_entry {trait_NoAccess})" and d3: "w_DS 3 = None"
    by (simp_all add: w_DS_def)
  note th = coverage_closure_adds_dependence[of "[w_tree]" w_DS]
  from th[THEN conjunct1, rule_format, OF m d]
  have a: "coverage_closure [w_tree] w_DS 1
        = Some (w_entry ({trait_Readonly} \<union> {trait_Flow, trait_Anti, trait_Output}))"
    by (simp add: w_entry_def)
  from th[THEN conjunct2, THEN conjunct1, rule_format, OF d2]
  have b: "\<exists>I'. coverage_closure [w_tree] w_DS 2 = Some I' \<and> {trait_NoAccess} \<subseteq> at_dptr I'"
    by (auto simp: w_entry_def)
  from th[THEN conjunct2, THEN conjunct2, rule_format, OF d3]
  have c: "coverage_closure [w_tree] w_DS 3 = None" .
  from m d d3 a b c show ?thesis by simp
qed

section \<open>Properties of \<^verbatim>\<open>checkFirstPrivate\<close>\<close>

lemma df_self: "EM \<in> set (df EM)"
  by (cases EM) simp

lemma set_DefLeafs_of:
  "set (DefLeafs_of Dptr LatchDefs ExitingDefs EM) =
     {D \<in> set (df EM). isLeaf D
        \<and> (if trait_LastPrivate \<in> Dptr then isAmbiguousCover (MustReach ExitingDefs) D
            else if trait_SecondToLastPrivate \<in> Dptr
              then isAmbiguousCover (MustReach LatchDefs) D
                   \<or> isAmbiguousCover (MustReach ExitingDefs) D
            else True)}"
  by (auto simp: DefLeafs_of_def)

text \<open>
  C2. For a region whose descriptor has \<^verbatim>\<open>LastPrivate\<close> or \<^verbatim>\<open>SecondToLastPrivate\<close> and not
  \<^verbatim>\<open>FirstPrivate\<close>, \<^verbatim>\<open>checkFirstPrivate\<close> collects the leaves below the region all of
  whose locations are must-reaching definitions at the exit (for \<^verbatim>\<open>LastPrivate\<close>) or at
  the latch or the exit (for \<^verbatim>\<open>SecondToLastPrivate\<close>). If the coverage test accepts these
  leaves for the region, trait and descriptor are unchanged; otherwise \<^verbatim>\<open>FirstPrivate\<close> is
  conjoined into the trait and set in the descriptor. For any other descriptor nothing
  changes.
\<close>

theorem checkFirstPrivate_refines:
  "(trait_FirstPrivate \<notin> Dptr
      \<and> (trait_LastPrivate \<in> Dptr \<or> trait_SecondToLastPrivate \<in> Dptr)
      \<and> LatchDF P = Some LatchDefs \<and> ExitDF P = Some ExitingDefs
     \<longrightarrow> (\<exists>DefLeafs.
           set DefLeafs =
             {D \<in> set (df EM). isLeaf D
                \<and> (if trait_LastPrivate \<in> Dptr
                    then list_all (contain (MustReach ExitingDefs)) (em_locations D)
                    else list_all (contain (MustReach LatchDefs)) (em_locations D)
                         \<or> list_all (contain (MustReach ExitingDefs)) (em_locations D))}
         \<and> (cover P EM DefLeafs
              \<longrightarrow> checkFirstPrivate P (EM, T) Dptr = Inr ((EM, T), Dptr))
         \<and> (\<not> cover P EM DefLeafs
              \<longrightarrow> checkFirstPrivate P (EM, T) Dptr
                    = Inr ((EM, T AND bits (header P) FirstPrivate),
                           insert trait_FirstPrivate Dptr))))
   \<and> (trait_FirstPrivate \<in> Dptr
        \<or> (trait_LastPrivate \<notin> Dptr \<and> trait_SecondToLastPrivate \<notin> Dptr)
     \<longrightarrow> checkFirstPrivate P (EM, T) Dptr = Inr ((EM, T), Dptr))"
proof (intro conjI impI)
  assume a: "trait_FirstPrivate \<notin> Dptr
      \<and> (trait_LastPrivate \<in> Dptr \<or> trait_SecondToLastPrivate \<in> Dptr)
      \<and> LatchDF P = Some LatchDefs \<and> ExitDF P = Some ExitingDefs"
  let ?L = "DefLeafs_of Dptr LatchDefs ExitingDefs EM"
  have s: "set ?L =
             {D \<in> set (df EM). isLeaf D
                \<and> (if trait_LastPrivate \<in> Dptr
                    then list_all (contain (MustReach ExitingDefs)) (em_locations D)
                    else list_all (contain (MustReach LatchDefs)) (em_locations D)
                         \<or> list_all (contain (MustReach ExitingDefs)) (em_locations D))}"
    using a by (auto simp: set_DefLeafs_of isAmbiguousCover_def)
  have c1: "cover P EM ?L \<longrightarrow> checkFirstPrivate P (EM, T) Dptr = Inr ((EM, T), Dptr)"
    using a by (auto simp: checkFirstPrivate_def)
  have c2: "\<not> cover P EM ?L
              \<longrightarrow> checkFirstPrivate P (EM, T) Dptr
                    = Inr ((EM, T AND bits (header P) FirstPrivate),
                           insert trait_FirstPrivate Dptr)"
    using a by (auto simp: checkFirstPrivate_def)
  from s c1 c2 show "\<exists>DefLeafs.
           set DefLeafs =
             {D \<in> set (df EM). isLeaf D
                \<and> (if trait_LastPrivate \<in> Dptr
                    then list_all (contain (MustReach ExitingDefs)) (em_locations D)
                    else list_all (contain (MustReach LatchDefs)) (em_locations D)
                         \<or> list_all (contain (MustReach ExitingDefs)) (em_locations D))}
         \<and> (cover P EM DefLeafs
              \<longrightarrow> checkFirstPrivate P (EM, T) Dptr = Inr ((EM, T), Dptr))
         \<and> (\<not> cover P EM DefLeafs
              \<longrightarrow> checkFirstPrivate P (EM, T) Dptr
                    = Inr ((EM, T AND bits (header P) FirstPrivate),
                           insert trait_FirstPrivate Dptr))"
    by (intro exI[of _ ?L] conjI)
next
  assume "trait_FirstPrivate \<in> Dptr
        \<or> (trait_LastPrivate \<notin> Dptr \<and> trait_SecondToLastPrivate \<notin> Dptr)"
  then show "checkFirstPrivate P (EM, T) Dptr = Inr ((EM, T), Dptr)"
    by (auto simp: checkFirstPrivate_def)
qed

theorem checkFirstPrivate_refines_witness:
  "checkFirstPrivate w_P (w_EM, 0xE7) {trait_LastPrivate}
     = Inr ((w_EM, 0xE6), {trait_FirstPrivate, trait_LastPrivate})
   \<and> checkFirstPrivate w_P (w_leaf, 0xE7) {trait_LastPrivate}
     = Inr ((w_leaf, 0xE7), {trait_LastPrivate})
   \<and> checkFirstPrivate w_P (w_EM, 0xEB) {trait_SecondToLastPrivate}
     = Inr ((w_EM, 0xEB), {trait_SecondToLastPrivate})
   \<and> checkFirstPrivate w_P (w_EM, 0xEF) {trait_Private}
     = Inr ((w_EM, 0xEF), {trait_Private})"
proof -
  have P: "LatchDF w_P = Some w_LatchDefs" "ExitDF w_P = Some w_ExitingDefs"
    "cover w_P = w_cover" "header w_P = w_H"
    by (simp_all add: w_P_def)
  have dfs: "df w_EM = [w_EM, EstimateMemory 11 [1] [], EstimateMemory 12 [8] []]"
    "df w_leaf = [w_leaf]"
    by (simp_all add: w_EM_def w_leaf_def)
  have h1: "trait_FirstPrivate \<notin> {trait_LastPrivate}
      \<and> (trait_LastPrivate \<in> {trait_LastPrivate} \<or> trait_SecondToLastPrivate \<in> {trait_LastPrivate})
      \<and> LatchDF w_P = Some w_LatchDefs \<and> ExitDF w_P = Some w_ExitingDefs"
    by (simp add: P)
  have h3: "trait_FirstPrivate \<notin> {trait_SecondToLastPrivate}
      \<and> (trait_LastPrivate \<in> {trait_SecondToLastPrivate}
          \<or> trait_SecondToLastPrivate \<in> {trait_SecondToLastPrivate})
      \<and> LatchDF w_P = Some w_LatchDefs \<and> ExitDF w_P = Some w_ExitingDefs"
    by (simp add: P)
  note th = checkFirstPrivate_refines[where P = w_P and LatchDefs = w_LatchDefs
      and ExitingDefs = w_ExitingDefs]
  \<comment> \<open>partial coverage\<close>
  from th[where Dptr = "{trait_LastPrivate}" and EM = w_EM and T = "0xE7",
      THEN conjunct1, rule_format, OF h1]
  obtain L1 where L1:
    "set L1 = {D \<in> set (df w_EM). isLeaf D
         \<and> (if trait_LastPrivate \<in> {trait_LastPrivate}
             then list_all (contain (MustReach w_ExitingDefs)) (em_locations D)
             else list_all (contain (MustReach w_LatchDefs)) (em_locations D)
                  \<or> list_all (contain (MustReach w_ExitingDefs)) (em_locations D))}"
    "\<not> cover w_P w_EM L1
       \<longrightarrow> checkFirstPrivate w_P (w_EM, 0xE7) {trait_LastPrivate}
           = Inr ((w_EM, 0xE7 AND bits (header w_P) FirstPrivate),
                  insert trait_FirstPrivate {trait_LastPrivate})"
    by (elim exE conjE) (rule that)
  from L1(1) have s1: "set L1 = {EstimateMemory 11 [1] []}"
    unfolding dfs set_filter[symmetric]
    by (simp add: isLeaf_def w_EM_def w_ExitingDefs_def)
  have n1: "\<not> cover w_P w_EM L1"
    by (simp add: P w_cover_def dfs s1 isLeaf_def)
  from L1(2) n1 have a1: "checkFirstPrivate w_P (w_EM, 0xE7) {trait_LastPrivate}
     = Inr ((w_EM, 0xE6), {trait_FirstPrivate, trait_LastPrivate})"
    by (simp add: P w_H_def)
  \<comment> \<open>full coverage\<close>
  from th[where Dptr = "{trait_LastPrivate}" and EM = w_leaf and T = "0xE7",
      THEN conjunct1, rule_format, OF h1]
  obtain L2 where L2:
    "set L2 = {D \<in> set (df w_leaf). isLeaf D
         \<and> (if trait_LastPrivate \<in> {trait_LastPrivate}
             then list_all (contain (MustReach w_ExitingDefs)) (em_locations D)
             else list_all (contain (MustReach w_LatchDefs)) (em_locations D)
                  \<or> list_all (contain (MustReach w_ExitingDefs)) (em_locations D))}"
    "cover w_P w_leaf L2
       \<longrightarrow> checkFirstPrivate w_P (w_leaf, 0xE7) {trait_LastPrivate}
           = Inr ((w_leaf, 0xE7), {trait_LastPrivate})"
    by (elim exE conjE) (rule that)
  from L2(1) have s2: "set L2 = {w_leaf}"
    unfolding dfs set_filter[symmetric]
    by (simp add: isLeaf_def w_leaf_def w_ExitingDefs_def)
  have c2: "cover w_P w_leaf L2"
    by (simp add: P w_cover_def dfs s2)
  from L2(2) c2 have a2: "checkFirstPrivate w_P (w_leaf, 0xE7) {trait_LastPrivate}
     = Inr ((w_leaf, 0xE7), {trait_LastPrivate})"
    by simp
  \<comment> \<open>second to last private: either control point\<close>
  from th[where Dptr = "{trait_SecondToLastPrivate}" and EM = w_EM and T = "0xEB",
      THEN conjunct1, rule_format, OF h3]
  obtain L3 where L3:
    "set L3 = {D \<in> set (df w_EM). isLeaf D
         \<and> (if trait_LastPrivate \<in> {trait_SecondToLastPrivate}
             then list_all (contain (MustReach w_ExitingDefs)) (em_locations D)
             else list_all (contain (MustReach w_LatchDefs)) (em_locations D)
                  \<or> list_all (contain (MustReach w_ExitingDefs)) (em_locations D))}"
    "cover w_P w_EM L3
       \<longrightarrow> checkFirstPrivate w_P (w_EM, 0xEB) {trait_SecondToLastPrivate}
           = Inr ((w_EM, 0xEB), {trait_SecondToLastPrivate})"
    by (elim exE conjE) (rule that)
  from L3(1) have s3: "set L3 = {EstimateMemory 11 [1] [], EstimateMemory 12 [8] []}"
    unfolding dfs set_filter[symmetric]
    by (simp add: isLeaf_def w_EM_def w_ExitingDefs_def w_LatchDefs_def)
  have c3: "cover w_P w_EM L3"
    by (simp add: P w_cover_def dfs s3 isLeaf_def w_EM_def)
  from L3(2) c3 have a3: "checkFirstPrivate w_P (w_EM, 0xEB) {trait_SecondToLastPrivate}
     = Inr ((w_EM, 0xEB), {trait_SecondToLastPrivate})"
    by simp
  \<comment> \<open>no refinement asked\<close>
  have h4: "trait_FirstPrivate \<in> {trait_Private}
        \<or> (trait_LastPrivate \<notin> {trait_Private} \<and> trait_SecondToLastPrivate \<notin> {trait_Private})"
    by simp
  from th[where Dptr = "{trait_Private}" and EM = w_EM and T = "0xEF",
      THEN conjunct2, rule_format, OF h4]
  have a4: "checkFirstPrivate w_P (w_EM, 0xEF) {trait_Private}
     = Inr ((w_EM, 0xEF), {trait_Private})" .
  from a1 a2 a3 a4 show ?thesis by simp
qed

section \<open>Properties of \<^verbatim>\<open>storeResults\<close>\<close>

lemma checkFirstPrivate_fst:
  assumes "checkFirstPrivate P EMI Dptr = Inr (EMI1, Dptr1)"
  shows "fst EMI1 = fst EMI"
  using assms
  by (auto simp: checkFirstPrivate_def Let_def split: if_splits option.splits)

lemma store_access_CombinedTrait:
  assumes "store_access P N EA Deps EMI s = Inr s'"
  shows "CombinedTrait s' = CombinedTrait s AND snd EMI"
  using assms
  by (auto simp: store_access_def Let_def split: sum.splits prod.splits if_splits)

lemma store_accesses_CombinedTrait:
  assumes "store_accesses P N EA Deps TL s = Inr s'"
  shows "CombinedTrait s' = fold (\<lambda>E C. C AND snd E) TL (CombinedTrait s)"
  using assms
proof (induction TL arbitrary: s)
  case Nil
  then show ?case by simp
next
  case (Cons EMI TL)
  from Cons.prems obtain s1 where s1: "store_access P N EA Deps EMI s = Inr s1"
    "store_accesses P N EA Deps TL s1 = Inr s'"
    by (auto split: sum.splits)
  from Cons.IH[OF s1(2)] store_access_CombinedTrait[OF s1(1)]
  show ?case by simp
qed

lemma store_unknown_CombinedTrait:
  "CombinedTrait (store_unknown P N EU U s) = CombinedTrait s AND snd U"
  by (simp add: store_unknown_def Let_def)

lemma store_unknowns_CombinedTrait:
  "CombinedTrait (store_unknowns P N EU UL s) = fold (\<lambda>U C. C AND snd U) UL (CombinedTrait s)"
  unfolding store_unknowns_def
  by (induction UL arbitrary: s) (simp_all add: store_unknown_CombinedTrait)

lemma storeResults_multi:
  assumes "storeResults P N EA EU Deps TL UL DS = Inr (TL', DS')"
      and "UL \<noteq> [] \<or> 2 \<le> length TL"
  shows "\<exists>s1. store_accesses P N EA Deps TL
                \<lparr> CombinedTrait = BitMemoryTrait_default (header P), CombinedDepDptr = {},
                  NodeTrait = \<lparr> at_dptr = {}, at_dep = (\<lambda>_. None), at_accesses = [],
                                at_unknowns = [] \<rparr>,
                  Visited = [] \<rparr> = Inr s1
     \<and> TL' = Visited (store_unknowns P N EU UL s1)
     \<and> DS' = DS(N \<mapsto> (NodeTrait (store_unknowns P N EU UL s1))
          \<lparr> at_dptr :=
              (if trait_ExplicitAccess \<in> at_dptr (NodeTrait (store_unknowns P N EU UL s1))
               then insert trait_ExplicitAccess
                      (toDescriptor (header P)
                         (combine (header P) (CombinedTrait (store_unknowns P N EU UL s1)))
                       - dep_traits \<union> CombinedDepDptr (store_unknowns P N EU UL s1))
               else toDescriptor (header P)
                         (combine (header P) (CombinedTrait (store_unknowns P N EU UL s1)))
                       - dep_traits \<union> CombinedDepDptr (store_unknowns P N EU UL s1)),
            at_accesses :=
              map (\<lambda>T. T\<lparr> emt_dptr := emt_dptr T
                                \<union> CombinedDepDptr (store_unknowns P N EU UL s1) \<rparr>)
                  (at_accesses (NodeTrait (store_unknowns P N EU UL s1))) \<rparr>)"
proof -
  from assms(2) have a: "(TL = [] \<and> UL = []) = False" "(UL = [] \<and> length TL = Suc 0) = False"
    by auto
  from assms(1) have b: "DS N = None"
    by (auto simp: storeResults_def split: if_splits)
  show ?thesis
    using assms(1) unfolding storeResults_def Let_def
    by (simp only: a b One_nat_def if_False not_None_eq simp_thms split: sum.splits) auto
qed

lemma find_map_same:
  assumes "\<And>x. P (f x) = P x"
  shows "List.find P (map f xs) = map_option f (List.find P xs)"
  using assms by (induction xs) simp_all

lemma storeDep_dptr:
  "emt_dptr (storeDep SE Dep t) = emt_dptr t \<union> (mDptr Dep \<inter> dep_traits)"
  by (auto simp: storeDep_def for_each_def dep_traits_def)

lemma storeDep_memory: "emt_memory (storeDep SE Dep t) = emt_memory t"
  by (simp add: storeDep_def for_each_def)

lemma insert_access_accesses:
  "at_accesses (insert_access t node) = at_accesses node
   \<or> at_accesses (insert_access t node) = at_accesses node @ [t]"
  by (simp add: insert_access_def)

lemma find_snoc:
  "List.find P (xs @ [x]) = (case List.find P xs of None \<Rightarrow> (if P x then Some x else None)
                              | Some y \<Rightarrow> Some y)"
  by (induction xs) simp_all

lemma insert_access_find:
  "\<exists>x. List.find (\<lambda>x. emt_memory x = emt_memory t) (at_accesses (insert_access t node)) = Some x
       \<and> x \<in> set (at_accesses (insert_access t node))"
proof (cases "emt_memory t \<in> set (map emt_memory (at_accesses node))")
  case True
  then have "List.find (\<lambda>x. emt_memory x = emt_memory t) (at_accesses node) \<noteq> None"
    by (auto simp: find_None_iff)
  then obtain x where x: "List.find (\<lambda>x. emt_memory x = emt_memory t) (at_accesses node) = Some x"
    by auto
  then have "x \<in> set (at_accesses node)"
    by (auto simp: find_Some_iff)
  with x True show ?thesis by (simp add: insert_access_def)
next
  case False
  then have "\<not> (\<exists>x. x \<in> set (at_accesses node) \<and> emt_memory x = emt_memory t)"
    by (metis image_eqI set_map)
  then have "List.find (\<lambda>x. emt_memory x = emt_memory t) (at_accesses node) = None"
    by (simp add: find_None_iff)
  with False show ?thesis
    by (simp add: insert_access_def find_snoc)
qed

lemma store_access_step:
  assumes r: "store_access P N EA Deps EMI s = Inr s'" and inv: "kinds_below s"
  shows "kinds_below s'
     \<and> (\<exists>EMI1. Visited s' = Visited s @ [EMI1] \<and> fst EMI1 = fst EMI
            \<and> CombinedDepDptr s' = CombinedDepDptr s \<union> dep_union (header P) Deps [EMI1])
     \<and> at_unknowns (NodeTrait s') = at_unknowns (NodeTrait s)"
proof -
  let ?H = "header P"
  from r obtain EMI1 Dptr1 where
    c: "checkFirstPrivate P EMI (toDescriptor ?H (snd EMI)) = Inr (EMI1, Dptr1)"
    by (auto simp: store_access_def Let_def split: sum.splits)
  have f1: "fst EMI1 = fst EMI" by (rule checkFirstPrivate_fst[OF c])
  define ex where "ex = explicit_in_node P N EA (fst EMI1)"
  define node1 where "node1 = (if ex then (NodeTrait s)\<lparr> at_dptr :=
                                   insert trait_ExplicitAccess (at_dptr (NodeTrait s)) \<rparr>
                           else NodeTrait s)"
  define Dptr3 where "Dptr3 = (if ex then insert trait_ExplicitAccess Dptr1 else Dptr1) - dep_traits"
  define t :: "('a, 'c) EstimateMemoryTrait"
    where "t = \<lparr> emt_memory = fst EMI1, emt_dptr = Dptr3, emt_dep = (\<lambda>_. None) \<rparr>"
  define node2 where "node2 = insert_access t node1"
  have acc1: "at_accesses node1 = at_accesses (NodeTrait s)"
    and unk1: "at_unknowns node1 = at_unknowns (NodeTrait s)"
    by (simp_all add: node1_def)
  have t0: "emt_dptr t \<inter> dep_traits = {}" "emt_memory t = fst EMI1"
    by (auto simp: t_def Dptr3_def)
  from inv have C: "CombinedDepDptr s \<subseteq> dep_traits"
    and A: "list_all (\<lambda>T. emt_dptr T \<inter> dep_traits \<subseteq> CombinedDepDptr s) (at_accesses (NodeTrait s))"
    by (simp_all add: kinds_below_def)
  have A2: "list_all (\<lambda>T. emt_dptr T \<inter> dep_traits \<subseteq> CombinedDepDptr s) (at_accesses node2)"
    using insert_access_accesses[of t node1] A t0(1) acc1
    by (auto simp: node2_def)
  have unk2: "at_unknowns node2 = at_unknowns (NodeTrait s)"
    using unk1 by (simp add: node2_def insert_access_def)
  show ?thesis
  proof (cases "dropUnitFlag ?H (snd EMI1) = bits ?H Dependency")
    case False
    with r c have s': "s' = \<lparr> CombinedTrait = CombinedTrait s AND snd EMI,
        CombinedDepDptr = CombinedDepDptr s, NodeTrait = node2, Visited = Visited s @ [EMI1] \<rparr>"
      by (simp add: store_access_def Let_def node2_def t_def Dptr3_def node1_def ex_def)
    have "dep_union ?H Deps [EMI1] = {}" using False by (simp add: dep_union_def)
    then show ?thesis
      using s' C A2 f1 unk2 by (simp add: kinds_below_def)
  next
    case True
    with r c obtain node3 where n3: "storeDepIfNeed P Deps (fst EMI1) node2 = Inr node3"
      and s': "s' = \<lparr> CombinedTrait = CombinedTrait s AND snd EMI,
        CombinedDepDptr = CombinedDepDptr s \<union> (access_dptr node3 (fst EMI1) \<inter> dep_traits),
        NodeTrait = node3, Visited = Visited s @ [EMI1] \<rparr>"
      by (auto simp: store_access_def Let_def node2_def t_def Dptr3_def node1_def ex_def
          split: sum.splits)
    from n3 obtain Dep where Dep: "Deps (fst EMI1) = Some Dep"
      and node3: "node3 = node2\<lparr> at_accesses :=
                 map (\<lambda>t. if emt_memory t = fst EMI1 then storeDep (mSE P) Dep t else t)
                     (at_accesses node2) \<rparr>"
      by (auto simp: storeDepIfNeed_def split: option.splits)
    let ?K = "mDptr Dep \<inter> dep_traits"
    let ?f = "\<lambda>t. if emt_memory t = fst EMI1 then storeDep (mSE P) Dep t else t"
    from insert_access_find[of t node1] t0(2)
    obtain x where x: "List.find (\<lambda>x. emt_memory x = fst EMI1) (at_accesses node2) = Some x"
      "x \<in> set (at_accesses node2)"
      by (auto simp: node2_def)
    have xm: "emt_memory x = fst EMI1" using x(1) by (auto simp: find_Some_iff)
    have "List.find (\<lambda>x. emt_memory x = fst EMI1) (map ?f (at_accesses node2))
          = map_option ?f (List.find (\<lambda>x. emt_memory x = fst EMI1) (at_accesses node2))"
      by (rule find_map_same) (simp add: storeDep_memory)
    with x(1) xm have "access_dptr node3 (fst EMI1) = emt_dptr (storeDep (mSE P) Dep x)"
      by (simp add: access_dptr_def node3)
    then have ad: "access_dptr node3 (fst EMI1) = emt_dptr x \<union> ?K"
      by (simp add: storeDep_dptr)
    from A2 x(2) have xs: "emt_dptr x \<inter> dep_traits \<subseteq> CombinedDepDptr s"
      by (auto simp: list_all_iff)
    have comb: "CombinedDepDptr s \<union> (access_dptr node3 (fst EMI1) \<inter> dep_traits)
          = CombinedDepDptr s \<union> ?K"
      using ad xs by auto
    have du: "dep_union ?H Deps [EMI1] = ?K"
      using True Dep by (simp add: dep_union_def get_dep_def)
    have A3: "list_all (\<lambda>T. emt_dptr T \<inter> dep_traits \<subseteq> CombinedDepDptr s \<union> ?K)
                (at_accesses node3)"
      using A2 by (fastforce simp: node3 list_all_iff storeDep_dptr)
    have unk3: "at_unknowns node3 = at_unknowns (NodeTrait s)"
      using unk2 by (simp add: node3)
    show ?thesis
      using s' comb du C A3 f1 unk3 by (auto simp: kinds_below_def)
  qed
qed

lemma dep_union_append:
  "dep_union H Deps (V1 @ V2) = dep_union H Deps V1 \<union> dep_union H Deps V2"
  by (auto simp: dep_union_def)

lemma dep_union_sub: "dep_union H Deps V \<subseteq> dep_traits"
  by (auto simp: dep_union_def split: if_splits)

lemma store_accesses_loop:
  assumes "store_accesses P N EA Deps TL s = Inr s'" and "kinds_below s"
  shows "kinds_below s'
     \<and> (\<exists>V. Visited s' = Visited s @ V \<and> map fst V = map fst TL
            \<and> CombinedDepDptr s' = CombinedDepDptr s \<union> dep_union (header P) Deps V)
     \<and> at_unknowns (NodeTrait s') = at_unknowns (NodeTrait s)"
  using assms
proof (induction TL arbitrary: s)
  case Nil
  then show ?case by (simp add: dep_union_def)
next
  case (Cons EMI TL)
  from Cons.prems(1) obtain s1 where s1: "store_access P N EA Deps EMI s = Inr s1"
    "store_accesses P N EA Deps TL s1 = Inr s'"
    by (auto split: sum.splits)
  from store_access_step[OF s1(1) Cons.prems(2)]
  obtain EMI1 where k1: "kinds_below s1"
    and v1: "Visited s1 = Visited s @ [EMI1]" "fst EMI1 = fst EMI"
      "CombinedDepDptr s1 = CombinedDepDptr s \<union> dep_union (header P) Deps [EMI1]"
    and u1: "at_unknowns (NodeTrait s1) = at_unknowns (NodeTrait s)"
    by (elim exE conjE) (rule that)
  from Cons.IH[OF s1(2) k1]
  obtain V where k': "kinds_below s'"
    and v': "Visited s' = Visited s1 @ V" "map fst V = map fst TL"
      "CombinedDepDptr s' = CombinedDepDptr s1 \<union> dep_union (header P) Deps V"
    and u': "at_unknowns (NodeTrait s') = at_unknowns (NodeTrait s1)"
    by (elim exE conjE) (rule that)
  have a: "Visited s' = Visited s @ (EMI1 # V)" using v1(1) v'(1) by simp
  have b: "map fst (EMI1 # V) = map fst (EMI # TL)" using v1(2) v'(2) by simp
  have c: "CombinedDepDptr s' = CombinedDepDptr s \<union> dep_union (header P) Deps (EMI1 # V)"
    using v1(3) v'(3) dep_union_append[of "header P" Deps "[EMI1]" V] by auto
  have d: "at_unknowns (NodeTrait s') = at_unknowns (NodeTrait s)" using u1 u' by simp
  show ?case
    by (intro conjI exI[of _ "EMI1 # V"]) (rule k' a b c d)+
qed

lemma store_unknown_step:
  assumes "kinds_below s"
  shows "kinds_below (store_unknown P N EU U s)"
    and "CombinedDepDptr (store_unknown P N EU U s)
          = CombinedDepDptr s \<union> (if dropUnitFlag (header P) (snd U) = bits (header P) Dependency
                                    then dep_traits else {})"
    and "at_accesses (NodeTrait (store_unknown P N EU U s)) = at_accesses (NodeTrait s)"
    and "Visited (store_unknown P N EU U s) = Visited s"
  using assms
  by (auto simp: store_unknown_def Let_def kinds_below_def list_all_iff)

lemma store_unknowns_loop:
  assumes "kinds_below s"
  shows "kinds_below (store_unknowns P N EU UL s)
     \<and> CombinedDepDptr (store_unknowns P N EU UL s)
          = CombinedDepDptr s
            \<union> (if list_ex (\<lambda>U. dropUnitFlag (header P) (snd U) = bits (header P) Dependency) UL
                then dep_traits else {})
     \<and> at_accesses (NodeTrait (store_unknowns P N EU UL s)) = at_accesses (NodeTrait s)
     \<and> Visited (store_unknowns P N EU UL s) = Visited s"
  using assms unfolding store_unknowns_def
proof (induction UL arbitrary: s)
  case Nil
  then show ?case by simp
next
  case (Cons U UL)
  note st = store_unknown_step[OF Cons.prems, of P N EU U]
  from Cons.IH[OF st(1)] st(2,3,4) show ?case by auto
qed

lemma store_access_returns:
  assumes "LatchDF P \<noteq> None" "ExitDF P \<noteq> None" "fst EMI \<in> dom Deps"
  shows "\<exists>s'. store_access P N EA Deps EMI s = Inr s'"
proof -
  from assms(1,2) obtain EMI1 Dptr1 where
    c: "checkFirstPrivate P EMI (toDescriptor (header P) (snd EMI)) = Inr (EMI1, Dptr1)"
    by (cases "checkFirstPrivate P EMI (toDescriptor (header P) (snd EMI))")
       (auto simp: checkFirstPrivate_def Let_def split: if_splits)
  have "fst EMI1 = fst EMI" by (rule checkFirstPrivate_fst[OF c])
  with assms(3) obtain Dep where "Deps (fst EMI1) = Some Dep" by auto
  with c show ?thesis
    by (simp add: store_access_def Let_def storeDepIfNeed_def)
qed

lemma store_accesses_returns:
  assumes "LatchDF P \<noteq> None" "ExitDF P \<noteq> None" "list_all (\<lambda>E. fst E \<in> dom Deps) TL"
  shows "\<exists>s'. store_accesses P N EA Deps TL s = Inr s'"
  using assms(3)
proof (induction TL arbitrary: s)
  case Nil
  show ?case by simp
next
  case (Cons EMI TL)
  from Cons.prems have "fst EMI \<in> dom Deps" by simp
  from store_access_returns[OF assms(1,2) this, of N EA s]
  obtain s1 where "store_access P N EA Deps EMI s = Inr s1" by blast
  moreover from Cons.prems Cons.IH[of s1] obtain s' where
    "store_accesses P N EA Deps TL s1 = Inr s'" by auto
  ultimately show ?case by simp
qed

lemma fresh_kinds_below:
  "kinds_below \<lparr> CombinedTrait = C, CombinedDepDptr = {},
       NodeTrait = \<lparr> at_dptr = {}, at_dep = (\<lambda>_. None), at_accesses = [], at_unknowns = [] \<rparr>,
       Visited = [] \<rparr>"
  by (simp add: kinds_below_def)

lemma storeResults_returns:
  fixes P :: "('loc, 'node, 'scev) Pass" and UL :: "('inst \<times> BitMemoryTrait) list"
  assumes "DS N = None" "LatchDF P \<noteq> None" "ExitDF P \<noteq> None"
      and "list_all (\<lambda>E. fst E \<in> dom Deps) TL"
  shows "\<exists>TL' DS'. storeResults P N EA EU Deps TL UL DS = Inr (TL', DS')"
proof (cases "UL = [] \<and> length TL = 1")
  case True
  then obtain EMI where TL: "TL = [EMI]" by (cases TL) auto
  from assms(2,3) obtain EMI1 Dptr1 where
    c: "checkFirstPrivate P EMI (toDescriptor (header P) (snd EMI)) = Inr (EMI1, Dptr1)"
    by (cases "checkFirstPrivate P EMI (toDescriptor (header P) (snd EMI))")
       (auto simp: checkFirstPrivate_def Let_def split: if_splits)
  have "fst EMI1 = fst EMI" by (rule checkFirstPrivate_fst[OF c])
  with assms(4) TL obtain Dep where "Deps (fst EMI1) = Some Dep" by auto
  with c True TL assms(1) show ?thesis
    by (auto simp: storeResults_def Let_def storeDepIfNeed_def split: option.splits)
next
  case False
  from store_accesses_returns[OF assms(2,3,4)]
  obtain s1 where "store_accesses P N EA Deps TL
      (\<lparr> CombinedTrait = BitMemoryTrait_default (header P), CombinedDepDptr = {},
        NodeTrait = \<lparr> at_dptr = {}, at_dep = (\<lambda>_. None), at_accesses = [], at_unknowns = [] \<rparr>,
        Visited = [] \<rparr> :: ('loc, 'inst, 'scev) store_state) = Inr s1"
    by blast
  with False assms(1) show ?thesis
    by (auto simp: storeResults_def Let_def)
qed

lemma storeResults_multi_kinds:
  fixes P :: "('loc, 'node, 'scev) Pass" and UL :: "('inst \<times> BitMemoryTrait) list"
  assumes "storeResults P N EA EU Deps TL UL DS = Inr (TL', DS')"
      and "UL \<noteq> [] \<or> 2 \<le> length TL"
  defines "K \<equiv> dep_union (header P) Deps TL'
                 \<union> (if list_ex (\<lambda>U. dropUnitFlag (header P) (snd U) = bits (header P) Dependency) UL
                     then dep_traits else {})"
  shows "\<exists>node. DS' N = Some node
     \<and> at_dptr node \<inter> dep_traits = K
     \<and> list_all (\<lambda>T. emt_dptr T \<inter> dep_traits = K) (at_accesses node)
     \<and> map fst TL' = map fst TL
     \<and> at_dptr node - dep_traits - {trait_ExplicitAccess}
         = toDescriptor (header P) (combine (header P) (conjoined (header P) TL UL))
           - dep_traits - {trait_ExplicitAccess}"
proof -
  let ?s0 = "\<lparr> CombinedTrait = BitMemoryTrait_default (header P), CombinedDepDptr = {},
        NodeTrait = \<lparr> at_dptr = {}, at_dep = (\<lambda>_. None), at_accesses = [], at_unknowns = [] \<rparr>,
        Visited = [] \<rparr> :: ('loc, 'inst, 'scev) store_state"
  from storeResults_multi[OF assms(1,2)]
  obtain s1 where s1: "store_accesses P N EA Deps TL ?s0 = Inr s1"
    and TL': "TL' = Visited (store_unknowns P N EU UL s1)"
    and DS': "DS' = DS(N \<mapsto> (NodeTrait (store_unknowns P N EU UL s1))
          \<lparr> at_dptr :=
              (if trait_ExplicitAccess \<in> at_dptr (NodeTrait (store_unknowns P N EU UL s1))
               then insert trait_ExplicitAccess
                      (toDescriptor (header P)
                         (combine (header P) (CombinedTrait (store_unknowns P N EU UL s1)))
                       - dep_traits \<union> CombinedDepDptr (store_unknowns P N EU UL s1))
               else toDescriptor (header P)
                         (combine (header P) (CombinedTrait (store_unknowns P N EU UL s1)))
                       - dep_traits \<union> CombinedDepDptr (store_unknowns P N EU UL s1)),
            at_accesses :=
              map (\<lambda>T. T\<lparr> emt_dptr := emt_dptr T
                                \<union> CombinedDepDptr (store_unknowns P N EU UL s1) \<rparr>)
                  (at_accesses (NodeTrait (store_unknowns P N EU UL s1))) \<rparr>)"
    by (elim exE conjE) (rule that)
  let ?s2 = "store_unknowns P N EU UL s1"
  from store_accesses_loop[OF s1 fresh_kinds_below]
  obtain V where k1: "kinds_below s1" and V: "Visited s1 = V" "map fst V = map fst TL"
    "CombinedDepDptr s1 = dep_union (header P) Deps V"
    by (elim exE conjE) (rule that, simp_all)
  from store_unknowns_loop[OF k1, of P N EU UL]
  have k2: "kinds_below ?s2"
    and c2: "CombinedDepDptr ?s2 = CombinedDepDptr s1
            \<union> (if list_ex (\<lambda>U. dropUnitFlag (header P) (snd U) = bits (header P) Dependency) UL
                then dep_traits else {})"
    and v2: "Visited ?s2 = Visited s1"
    by simp_all
  have K: "CombinedDepDptr ?s2 = K"
    using c2 V(1,3) v2 TL' by (simp add: K_def)
  from k2 have sub: "K \<subseteq> dep_traits"
    and below: "list_all (\<lambda>T. emt_dptr T \<inter> dep_traits \<subseteq> K) (at_accesses (NodeTrait ?s2))"
    unfolding K[symmetric] by (simp_all add: kinds_below_def)
  have ct: "CombinedTrait ?s2 = conjoined (header P) TL UL"
    using store_unknowns_CombinedTrait[of P N EU UL s1] store_accesses_CombinedTrait[OF s1]
    by (simp add: conjoined_def BitMemoryTrait_default_def)
  let ?node = "the (DS' N)"
  have n: "DS' N = Some ?node" by (simp add: DS')
  have d: "at_dptr ?node \<inter> dep_traits = K"
    using sub by (auto simp: DS' K dep_traits_def)
  have a: "list_all (\<lambda>T. emt_dptr T \<inter> dep_traits = K) (at_accesses ?node)"
    using below sub by (auto simp: DS' K list_all_iff)
  have m: "map fst TL' = map fst TL" using TL' v2 V by simp
  have e: "at_dptr ?node - dep_traits - {trait_ExplicitAccess}
         = toDescriptor (header P) (combine (header P) (conjoined (header P) TL UL))
           - dep_traits - {trait_ExplicitAccess}"
    using sub by (auto simp: DS' K ct)
  show ?thesis
    by (intro exI[of _ ?node] conjI) (rule n d a m e)+
qed

lemma w_H_lattice: "trait_lattice w_H"
proof -
  have a: "(a AND b) OR c = (a OR c) AND (b OR c)" for a b c :: BitMemoryTrait
    by (rule bit_eqI) (auto simp: bit_simps)
  have b: "(a OR c) OR c = a OR c" for a c :: BitMemoryTrait
    by (rule bit_eqI) (auto simp: bit_simps)
  have c: "(a OR c) AND (c OR c) = c" for a c :: BitMemoryTrait
    by (rule bit_eqI) (auto simp: bit_simps)
  show ?thesis
    unfolding trait_lattice_def
    by (simp add: w_H_def a b c)
qed

lemma fold_and_all:
  fixes L :: "('a \<times> BitMemoryTrait) list"
  assumes homo: "\<And>a b. dropUnitFlag H (a AND b) = dropUnitFlag H a AND dropUnitFlag H b"
      and "list_all (\<lambda>E. dropUnitFlag H (snd E) = X) L"
  shows "dropUnitFlag H (fold (\<lambda>E C. C AND snd E) L C0)
         = (if L = [] then dropUnitFlag H C0 else dropUnitFlag H C0 AND X)"
  using assms(2)
proof (induction L arbitrary: C0)
  case Nil
  show ?case by simp
next
  case (Cons E L)
  then have E: "dropUnitFlag H (snd E) = X" and L: "list_all (\<lambda>E. dropUnitFlag H (snd E) = X) L"
    by simp_all
  have "dropUnitFlag H (fold (\<lambda>E C. C AND snd E) L (C0 AND snd E))
        = (if L = [] then dropUnitFlag H (C0 AND snd E)
           else dropUnitFlag H (C0 AND snd E) AND X)"
    by (rule Cons.IH[OF L])
  also have "\<dots> = dropUnitFlag H C0 AND X"
    by (simp add: homo E and.assoc)
  finally show ?case by simp
qed

lemma conjoined_all:
  fixes TL :: "('a \<times> BitMemoryTrait) list" and UL :: "('b \<times> BitMemoryTrait) list"
  assumes homo: "\<And>a b. dropUnitFlag H (a AND b) = dropUnitFlag H a AND dropUnitFlag H b"
      and top: "dropUnitFlag H (bits H NoAccess) AND X = X"
      and ne: "UL \<noteq> [] \<or> 2 \<le> length TL"
      and T: "list_all (\<lambda>E. dropUnitFlag H (snd E) = X) TL"
      and U: "list_all (\<lambda>U. dropUnitFlag H (snd U) = X) UL"
  shows "dropUnitFlag H (conjoined H TL UL) = X"
proof -
  let ?C1 = "fold (\<lambda>E C. C AND snd E) TL (bits H NoAccess)"
  have c1: "dropUnitFlag H ?C1
      = (if TL = [] then dropUnitFlag H (bits H NoAccess)
         else dropUnitFlag H (bits H NoAccess) AND X)"
    by (rule fold_and_all[OF homo T])
  have c2: "dropUnitFlag H (conjoined H TL UL)
      = (if UL = [] then dropUnitFlag H ?C1 else dropUnitFlag H ?C1 AND X)"
    unfolding conjoined_def by (rule fold_and_all[OF homo U])
  from ne have "TL \<noteq> [] \<or> UL \<noteq> []" by auto
  then show ?thesis
    using c1 c2 top by (auto simp: and.assoc)
qed

lemma insert_access_dptr: "at_dptr (insert_access t node) = at_dptr node"
  by (simp add: insert_access_def)

lemma storeDepIfNeed_dptr:
  assumes "storeDepIfNeed P Deps EM node = Inr node'"
  shows "at_dptr node' = at_dptr node"
  using assms by (auto simp: storeDepIfNeed_def split: option.splits)

lemma store_access_dptr:
  assumes r: "store_access P N EA Deps EMI s = Inr s'"
  shows "at_dptr (NodeTrait s')
     = at_dptr (NodeTrait s)
       \<union> (if explicit_in_node P N EA (fst EMI) then {trait_ExplicitAccess} else {})"
proof -
  let ?H = "header P"
  from r obtain EMI1 Dptr1 where
    c: "checkFirstPrivate P EMI (toDescriptor ?H (snd EMI)) = Inr (EMI1, Dptr1)"
    by (auto simp: store_access_def Let_def split: sum.splits)
  have f1: "fst EMI1 = fst EMI" by (rule checkFirstPrivate_fst[OF c])
  define ex where "ex = explicit_in_node P N EA (fst EMI1)"
  define node1 where "node1 = (if ex then (NodeTrait s)\<lparr> at_dptr :=
                                   insert trait_ExplicitAccess (at_dptr (NodeTrait s)) \<rparr>
                           else NodeTrait s)"
  define Dptr3 where "Dptr3 = (if ex then insert trait_ExplicitAccess Dptr1 else Dptr1) - dep_traits"
  define t :: "('a, 'c) EstimateMemoryTrait"
    where "t = \<lparr> emt_memory = fst EMI1, emt_dptr = Dptr3, emt_dep = (\<lambda>_. None) \<rparr>"
  define node2 where "node2 = insert_access t node1"
  have d2: "at_dptr node2 = at_dptr (NodeTrait s)
       \<union> (if explicit_in_node P N EA (fst EMI) then {trait_ExplicitAccess} else {})"
    unfolding node2_def insert_access_dptr by (simp add: node1_def ex_def f1)
  show ?thesis
  proof (cases "dropUnitFlag ?H (snd EMI1) = bits ?H Dependency")
    case False
    with r c have "NodeTrait s' = node2"
      by (auto simp: store_access_def Let_def node2_def t_def Dptr3_def node1_def ex_def)
    with d2 show ?thesis by simp
  next
    case True
    with r c obtain node3 where n3: "storeDepIfNeed P Deps (fst EMI1) node2 = Inr node3"
      and s': "NodeTrait s' = node3"
      by (auto simp: store_access_def Let_def node2_def t_def Dptr3_def node1_def ex_def
          split: sum.splits)
    from storeDepIfNeed_dptr[OF n3] d2 s' show ?thesis by simp
  qed
qed

lemma store_accesses_dptr:
  assumes "store_accesses P N EA Deps TL s = Inr s'"
  shows "at_dptr (NodeTrait s')
     = at_dptr (NodeTrait s)
       \<union> (if list_ex (\<lambda>E. explicit_in_node P N EA (fst E)) TL then {trait_ExplicitAccess} else {})"
  using assms
proof (induction TL arbitrary: s)
  case Nil
  then show ?case by simp
next
  case (Cons EMI TL)
  from Cons.prems obtain s1 where s1: "store_access P N EA Deps EMI s = Inr s1"
    "store_accesses P N EA Deps TL s1 = Inr s'"
    by (auto split: sum.splits)
  from Cons.IH[OF s1(2)] store_access_dptr[OF s1(1)]
  show ?case by auto
qed

text \<open>The entry that the loop over the unknown accesses inserts for an item.\<close>

lemma store_unknown_node:
  "at_dptr (NodeTrait (store_unknown P N EU U s))
     = at_dptr (NodeTrait s)
       \<union> (if explicit_unknown_in_node P N EU (fst U) then {trait_ExplicitAccess} else {})"
  "at_unknowns (NodeTrait (store_unknown P N EU U s))
     = (if fst U \<in> set (map umt_memory (at_unknowns (NodeTrait s)))
        then at_unknowns (NodeTrait s)
        else at_unknowns (NodeTrait s)
             @ [\<lparr> umt_memory = fst U,
                  umt_dptr = toDescriptor (header P) (snd U)
                    \<union> (if explicit_unknown_in_node P N EU (fst U)
                        then {trait_ExplicitAccess} else {}) \<rparr>])"
  by (auto simp: store_unknown_def Let_def)

lemma store_unknowns_node:
  "at_dptr (NodeTrait (store_unknowns P N EU UL s))
     = at_dptr (NodeTrait s)
       \<union> (if list_ex (\<lambda>U. explicit_unknown_in_node P N EU (fst U)) UL
          then {trait_ExplicitAccess} else {})
   \<and> set (map umt_memory (at_unknowns (NodeTrait (store_unknowns P N EU UL s))))
       = set (map umt_memory (at_unknowns (NodeTrait s))) \<union> set (map fst UL)
   \<and> (\<forall>u \<in> set (at_unknowns (NodeTrait (store_unknowns P N EU UL s))).
         u \<in> set (at_unknowns (NodeTrait s))
         \<or> (\<exists>U \<in> set UL. u = \<lparr> umt_memory = fst U,
                  umt_dptr = toDescriptor (header P) (snd U)
                    \<union> (if explicit_unknown_in_node P N EU (fst U)
                        then {trait_ExplicitAccess} else {}) \<rparr>))"
  unfolding store_unknowns_def
proof (induction UL arbitrary: s)
  case Nil
  show ?case by simp
next
  case (Cons U UL)
  note st = store_unknown_node[of P N EU U s]
  note ih = Cons.IH[of "store_unknown P N EU U s"]
  have a: "at_dptr (NodeTrait (fold (store_unknown P N EU) (U # UL) s))
     = at_dptr (NodeTrait s)
       \<union> (if list_ex (\<lambda>U. explicit_unknown_in_node P N EU (fst U)) (U # UL)
          then {trait_ExplicitAccess} else {})"
    using ih[THEN conjunct1] st(1) by auto
  have b: "set (map umt_memory (at_unknowns (NodeTrait (fold (store_unknown P N EU) (U # UL) s))))
       = set (map umt_memory (at_unknowns (NodeTrait s))) \<union> set (map fst (U # UL))"
    using ih[THEN conjunct2, THEN conjunct1] st(2) by auto
  have c: "\<forall>u \<in> set (at_unknowns (NodeTrait (fold (store_unknown P N EU) (U # UL) s))).
         u \<in> set (at_unknowns (NodeTrait s))
         \<or> (\<exists>U' \<in> set (U # UL). u = \<lparr> umt_memory = fst U',
                  umt_dptr = toDescriptor (header P) (snd U')
                    \<union> (if explicit_unknown_in_node P N EU (fst U')
                        then {trait_ExplicitAccess} else {}) \<rparr>)"
  proof
    fix u
    assume "u \<in> set (at_unknowns (NodeTrait (fold (store_unknown P N EU) (U # UL) s)))"
    then have "u \<in> set (at_unknowns (NodeTrait (fold (store_unknown P N EU) UL
                       (store_unknown P N EU U s))))" by simp
    from ih[THEN conjunct2, THEN conjunct2, rule_format, OF this]
    show "u \<in> set (at_unknowns (NodeTrait s))
         \<or> (\<exists>U' \<in> set (U # UL). u = \<lparr> umt_memory = fst U',
                  umt_dptr = toDescriptor (header P) (snd U')
                    \<union> (if explicit_unknown_in_node P N EU (fst U')
                        then {trait_ExplicitAccess} else {}) \<rparr>)"
      unfolding st(2) by (auto split: if_splits)
  qed
  from a b c show ?case by (intro conjI)
qed

lemma storeResults_multi_node:
  fixes P :: "('loc, 'node, 'scev) Pass" and UL :: "('inst \<times> BitMemoryTrait) list"
  assumes "storeResults P N EA EU Deps TL UL DS = Inr (TL', DS')"
      and "UL \<noteq> [] \<or> 2 \<le> length TL"
  defines "K \<equiv> dep_union (header P) Deps TL'
                 \<union> (if list_ex (\<lambda>U. dropUnitFlag (header P) (snd U) = bits (header P) Dependency) UL
                     then dep_traits else {})"
  shows "\<exists>node. DS' N = Some node
     \<and> at_dptr node
         = (toDescriptor (header P) (combine (header P) (conjoined (header P) TL UL)) - dep_traits)
           \<union> K
           \<union> (if list_ex (\<lambda>E. explicit_in_node P N EA (fst E)) TL
                  \<or> list_ex (\<lambda>U. explicit_unknown_in_node P N EU (fst U)) UL
               then {trait_ExplicitAccess} else {})
     \<and> set (map umt_memory (at_unknowns node)) = set (map fst UL)
     \<and> (\<forall>u \<in> set (at_unknowns node).
           \<exists>U \<in> set UL. u = \<lparr> umt_memory = fst U,
                  umt_dptr = toDescriptor (header P) (snd U)
                    \<union> (if explicit_unknown_in_node P N EU (fst U)
                        then {trait_ExplicitAccess} else {}) \<rparr>)"
proof -
  let ?s0 = "\<lparr> CombinedTrait = BitMemoryTrait_default (header P), CombinedDepDptr = {},
        NodeTrait = \<lparr> at_dptr = {}, at_dep = (\<lambda>_. None), at_accesses = [], at_unknowns = [] \<rparr>,
        Visited = [] \<rparr> :: ('loc, 'inst, 'scev) store_state"
  from storeResults_multi[OF assms(1,2)]
  obtain s1 where s1: "store_accesses P N EA Deps TL ?s0 = Inr s1"
    and TL': "TL' = Visited (store_unknowns P N EU UL s1)"
    and DS': "DS' = DS(N \<mapsto> (NodeTrait (store_unknowns P N EU UL s1))
          \<lparr> at_dptr :=
              (if trait_ExplicitAccess \<in> at_dptr (NodeTrait (store_unknowns P N EU UL s1))
               then insert trait_ExplicitAccess
                      (toDescriptor (header P)
                         (combine (header P) (CombinedTrait (store_unknowns P N EU UL s1)))
                       - dep_traits \<union> CombinedDepDptr (store_unknowns P N EU UL s1))
               else toDescriptor (header P)
                         (combine (header P) (CombinedTrait (store_unknowns P N EU UL s1)))
                       - dep_traits \<union> CombinedDepDptr (store_unknowns P N EU UL s1)),
            at_accesses :=
              map (\<lambda>T. T\<lparr> emt_dptr := emt_dptr T
                                \<union> CombinedDepDptr (store_unknowns P N EU UL s1) \<rparr>)
                  (at_accesses (NodeTrait (store_unknowns P N EU UL s1))) \<rparr>)"
    by (elim exE conjE) (rule that)
  let ?s2 = "store_unknowns P N EU UL s1"
  from store_accesses_loop[OF s1 fresh_kinds_below]
  obtain V where k1: "kinds_below s1" and V: "Visited s1 = V" "map fst V = map fst TL"
    "CombinedDepDptr s1 = dep_union (header P) Deps V"
    and u1: "at_unknowns (NodeTrait s1) = []"
    by (elim exE conjE) (rule that, simp_all)
  from store_unknowns_loop[OF k1, of P N EU UL]
  have c2: "CombinedDepDptr ?s2 = CombinedDepDptr s1
            \<union> (if list_ex (\<lambda>U. dropUnitFlag (header P) (snd U) = bits (header P) Dependency) UL
                then dep_traits else {})"
    and v2: "Visited ?s2 = Visited s1"
    by simp_all
  have K: "CombinedDepDptr ?s2 = K"
    using c2 V(1,3) v2 TL' by (simp add: K_def)
  have ct: "CombinedTrait ?s2 = conjoined (header P) TL UL"
    using store_unknowns_CombinedTrait[of P N EU UL s1] store_accesses_CombinedTrait[OF s1]
    by (simp add: conjoined_def BitMemoryTrait_default_def)
  from store_accesses_dptr[OF s1]
  have d1: "at_dptr (NodeTrait s1)
      = (if list_ex (\<lambda>E. explicit_in_node P N EA (fst E)) TL then {trait_ExplicitAccess} else {})"
    by simp
  note su = store_unknowns_node[of P N EU UL s1]
  have d2: "trait_ExplicitAccess \<in> at_dptr (NodeTrait ?s2)
      \<longleftrightarrow> list_ex (\<lambda>E. explicit_in_node P N EA (fst E)) TL
          \<or> list_ex (\<lambda>U. explicit_unknown_in_node P N EU (fst U)) UL"
    unfolding su[THEN conjunct1] d1 by auto
  let ?node = "the (DS' N)"
  have n: "DS' N = Some ?node" by (simp add: DS')
  have d: "at_dptr ?node
         = (toDescriptor (header P) (combine (header P) (conjoined (header P) TL UL)) - dep_traits)
           \<union> K
           \<union> (if list_ex (\<lambda>E. explicit_in_node P N EA (fst E)) TL
                  \<or> list_ex (\<lambda>U. explicit_unknown_in_node P N EU (fst U)) UL
               then {trait_ExplicitAccess} else {})"
    unfolding DS' using d2 by (auto simp: K ct)
  have un: "at_unknowns ?node = at_unknowns (NodeTrait ?s2)" by (simp add: DS')
  have m: "set (map umt_memory (at_unknowns ?node)) = set (map fst UL)"
    unfolding un using su[THEN conjunct2, THEN conjunct1] u1 by simp
  have e: "\<forall>u \<in> set (at_unknowns ?node).
           \<exists>U \<in> set UL. u = \<lparr> umt_memory = fst U,
                  umt_dptr = toDescriptor (header P) (snd U)
                    \<union> (if explicit_unknown_in_node P N EU (fst U)
                        then {trait_ExplicitAccess} else {}) \<rparr>"
    unfolding un using su[THEN conjunct2, THEN conjunct2] u1 by simp
  show ?thesis
    by (intro exI[of _ ?node] conjI) (rule n d m e)+
qed

text \<open>
  C5 (as amended). When \<^verbatim>\<open>storeResults\<close> finalizes an alias node whose list holds several
  regions and/or unknown accesses, the combined trait is decided by the conjunction of the
  traits of all entries: \<^verbatim>\<open>Readonly\<close> if the conjunction (unit flags dropped) is
  \<^verbatim>\<open>Readonly\<close>, \<^verbatim>\<open>Shared\<close> if it is \<^verbatim>\<open>Shared\<close>, and \<^verbatim>\<open>Dependency\<close> in every other case.
  The conjunction is \<^verbatim>\<open>Readonly\<close> when every entry is \<^verbatim>\<open>Readonly\<close> and \<^verbatim>\<open>Shared\<close> when every
  entry is \<^verbatim>\<open>Shared\<close>. The descriptor stored for the node is exactly the descriptor of the
  combined trait with its \<^verbatim>\<open>Flow\<close>, \<^verbatim>\<open>Anti\<close> and \<^verbatim>\<open>Output\<close> replaced by the kinds recorded
  for the regions whose own trait is \<^verbatim>\<open>Dependency\<close> (all three if an unknown access is
  \<^verbatim>\<open>Dependency\<close>), with \<^verbatim>\<open>ExplicitAccess\<close> added when an entry is explicitly accessed in
  the node. So a node whose combined trait is \<^verbatim>\<open>Dependency\<close> while no entry is
  \<^verbatim>\<open>Dependency\<close> is stored without any dependence kind. The header is any one with the
  lattice properties of \<open>trait_lattice\<close>.
\<close>

theorem storeResults_combined:
  fixes P :: "('loc, 'node, 'scev) Pass" and UL :: "('inst \<times> BitMemoryTrait) list"
  assumes "storeResults P N EA EU Deps TL UL DS = Inr (TL', DS')"
      and "UL \<noteq> [] \<or> 2 \<le> length TL"
      and "trait_lattice (header P)"
  shows "\<exists>node. DS' N = Some node
     \<and> at_dptr node
         = (toDescriptor (header P) (combine (header P) (conjoined (header P) TL UL))
              - {trait_Flow, trait_Anti, trait_Output})
           \<union> (dep_union (header P) Deps TL'
               \<union> (if list_ex (\<lambda>U. dropUnitFlag (header P) (snd U) = bits (header P) Dependency) UL
                   then {trait_Flow, trait_Anti, trait_Output} else {}))
           \<union> (if list_ex (\<lambda>E. explicit_in_node P N EA (fst E)) TL
                  \<or> list_ex (\<lambda>U. explicit_unknown_in_node P N EU (fst U)) UL
               then {trait_ExplicitAccess} else {})
     \<and> (dropUnitFlag (header P) (conjoined (header P) TL UL) = bits (header P) Readonly
          \<longrightarrow> dropUnitFlag (header P) (combine (header P) (conjoined (header P) TL UL))
                = bits (header P) Readonly)
     \<and> (dropUnitFlag (header P) (conjoined (header P) TL UL) = bits (header P) Shared
          \<longrightarrow> dropUnitFlag (header P) (combine (header P) (conjoined (header P) TL UL))
                = bits (header P) Shared)
     \<and> (dropUnitFlag (header P) (conjoined (header P) TL UL) \<noteq> bits (header P) Readonly
          \<and> dropUnitFlag (header P) (conjoined (header P) TL UL) \<noteq> bits (header P) Shared
          \<longrightarrow> dropUnitFlag (header P) (combine (header P) (conjoined (header P) TL UL))
                = bits (header P) Dependency)
     \<and> (list_all (\<lambda>E. dropUnitFlag (header P) (snd E) = bits (header P) Readonly) TL
          \<and> list_all (\<lambda>U. dropUnitFlag (header P) (snd U) = bits (header P) Readonly) UL
          \<longrightarrow> dropUnitFlag (header P) (conjoined (header P) TL UL) = bits (header P) Readonly)
     \<and> (list_all (\<lambda>E. dropUnitFlag (header P) (snd E) = bits (header P) Shared) TL
          \<and> list_all (\<lambda>U. dropUnitFlag (header P) (snd U) = bits (header P) Shared) UL
          \<longrightarrow> dropUnitFlag (header P) (conjoined (header P) TL UL) = bits (header P) Shared)
     \<and> (list_all (\<lambda>E. dropUnitFlag (header P) (snd E) \<noteq> bits (header P) Dependency) TL'
          \<and> list_all (\<lambda>U. dropUnitFlag (header P) (snd U) \<noteq> bits (header P) Dependency) UL
          \<longrightarrow> at_dptr node \<inter> {trait_Flow, trait_Anti, trait_Output} = {})"
proof -
  let ?H = "header P"
  let ?C = "conjoined ?H TL UL"
  from assms(3) have homo: "\<And>a b. dropUnitFlag ?H (a AND b) = dropUnitFlag ?H a AND dropUnitFlag ?H b"
    and idem: "\<And>a. dropUnitFlag ?H (dropUnitFlag ?H a) = dropUnitFlag ?H a"
    and topR: "dropUnitFlag ?H (bits ?H NoAccess) AND bits ?H Readonly = bits ?H Readonly"
    and topS: "dropUnitFlag ?H (bits ?H NoAccess) AND bits ?H Shared = bits ?H Shared"
    and bot: "\<And>a. dropUnitFlag ?H a AND dropUnitFlag ?H (bits ?H Dependency) = bits ?H Dependency"
    by (simp_all add: trait_lattice_def)
  from storeResults_multi_node[OF assms(1,2)]
  obtain node where n: "DS' N = Some node"
    and d: "at_dptr node
         = (toDescriptor ?H (combine ?H ?C) - dep_traits)
           \<union> (dep_union ?H Deps TL'
               \<union> (if list_ex (\<lambda>U. dropUnitFlag ?H (snd U) = bits ?H Dependency) UL
                   then dep_traits else {}))
           \<union> (if list_ex (\<lambda>E. explicit_in_node P N EA (fst E)) TL
                  \<or> list_ex (\<lambda>U. explicit_unknown_in_node P N EU (fst U)) UL
               then {trait_ExplicitAccess} else {})"
    by (elim exE conjE) (rule that)
  have keep: "dropUnitFlag ?H (combine ?H ?C) = X" if "dropUnitFlag ?H ?C = X"
    and "X = bits ?H Readonly \<or> X = bits ?H Shared" for X
  proof -
    have "dropUnitFlag ?H X = X" using idem[of ?C] that(1) by simp
    moreover have "combine ?H ?C = ?C AND X" using that by (auto simp: combine_def)
    ultimately show ?thesis using that(1) by (simp add: homo)
  qed
  have c1: "dropUnitFlag ?H ?C = bits ?H Readonly
          \<longrightarrow> dropUnitFlag ?H (combine ?H ?C) = bits ?H Readonly"
    using keep by blast
  have c2: "dropUnitFlag ?H ?C = bits ?H Shared
          \<longrightarrow> dropUnitFlag ?H (combine ?H ?C) = bits ?H Shared"
    using keep by blast
  have c3: "dropUnitFlag ?H ?C \<noteq> bits ?H Readonly \<and> dropUnitFlag ?H ?C \<noteq> bits ?H Shared
          \<longrightarrow> dropUnitFlag ?H (combine ?H ?C) = bits ?H Dependency"
    by (simp add: combine_def homo bot)
  have c4: "list_all (\<lambda>E. dropUnitFlag ?H (snd E) = bits ?H Readonly) TL
          \<and> list_all (\<lambda>U. dropUnitFlag ?H (snd U) = bits ?H Readonly) UL
          \<longrightarrow> dropUnitFlag ?H ?C = bits ?H Readonly"
    using conjoined_all[of ?H "bits ?H Readonly" UL TL, OF homo topR assms(2)] by blast
  have c5: "list_all (\<lambda>E. dropUnitFlag ?H (snd E) = bits ?H Shared) TL
          \<and> list_all (\<lambda>U. dropUnitFlag ?H (snd U) = bits ?H Shared) UL
          \<longrightarrow> dropUnitFlag ?H ?C = bits ?H Shared"
    using conjoined_all[of ?H "bits ?H Shared" UL TL, OF homo topS assms(2)] by blast
  from d have d': "at_dptr node
         = (toDescriptor (header P) (combine (header P) (conjoined (header P) TL UL))
              - {trait_Flow, trait_Anti, trait_Output})
           \<union> (dep_union (header P) Deps TL'
               \<union> (if list_ex (\<lambda>U. dropUnitFlag (header P) (snd U) = bits (header P) Dependency) UL
                   then {trait_Flow, trait_Anti, trait_Output} else {}))
           \<union> (if list_ex (\<lambda>E. explicit_in_node P N EA (fst E)) TL
                  \<or> list_ex (\<lambda>U. explicit_unknown_in_node P N EU (fst U)) UL
               then {trait_ExplicitAccess} else {})"
    by (simp add: dep_traits_def)
  have c6: "list_all (\<lambda>E. dropUnitFlag (header P) (snd E) \<noteq> bits (header P) Dependency) TL'
          \<and> list_all (\<lambda>U. dropUnitFlag (header P) (snd U) \<noteq> bits (header P) Dependency) UL
          \<longrightarrow> at_dptr node \<inter> {trait_Flow, trait_Anti, trait_Output} = {}"
  proof (intro impI, elim conjE)
    assume a: "list_all (\<lambda>E. dropUnitFlag ?H (snd E) \<noteq> bits ?H Dependency) TL'"
      and b: "list_all (\<lambda>U. dropUnitFlag ?H (snd U) \<noteq> bits ?H Dependency) UL"
    from a have "dep_union ?H Deps TL' = {}"
      by (auto simp: dep_union_def list_all_iff)
    moreover from b have "\<not> list_ex (\<lambda>U. dropUnitFlag ?H (snd U) = bits ?H Dependency) UL"
      by (auto simp: list_all_iff list_ex_iff)
    ultimately show "at_dptr node \<inter> {trait_Flow, trait_Anti, trait_Output} = {}"
      unfolding d' by auto
  qed
  show ?thesis
    by (intro exI[of _ node] conjI) (rule n d' c1 c2 c3 c4 c5 c6)+
qed

theorem storeResults_combined_witness:
  "(\<exists>TL' DS' node.
      storeResults w_P 0 Map.empty (Map.empty :: nat \<rightharpoonup> nat \<times> BitMemoryTrait) w_DepsEM
        [(w_leaf, 0xFB), (w_EM, 0xFB)] [] Map.empty = Inr (TL', DS')
    \<and> DS' 0 = Some node \<and> at_dptr node = {trait_Readonly})
   \<and> dropUnitFlag w_H (combine w_H (conjoined w_H [(w_leaf, 0xFB), (w_EM, 0xFB)]
          ([] :: (nat \<times> BitMemoryTrait) list))) = bits w_H Readonly
   \<and> (\<exists>TL' DS' node.
      storeResults w_P 0 Map.empty (Map.empty :: nat \<rightharpoonup> nat \<times> BitMemoryTrait) w_DepsEM
        [(w_leaf, 0xFB), (w_EM, 0xDF)] [] Map.empty = Inr (TL', DS')
    \<and> DS' 0 = Some node \<and> at_dptr node = {})
   \<and> dropUnitFlag w_H (combine w_H (conjoined w_H [(w_leaf, 0xFB), (w_EM, 0xDF)]
          ([] :: (nat \<times> BitMemoryTrait) list))) = bits w_H Dependency
   \<and> (\<exists>TL' DS' node.
      storeResults w_P 0 Map.empty (Map.empty :: nat \<rightharpoonup> nat \<times> BitMemoryTrait) w_DepsEM
        [(w_leaf, 0xC0), (w_EM, 0xFB)] [] Map.empty = Inr (TL', DS')
    \<and> DS' 0 = Some node \<and> at_dptr node = {trait_Flow})"
proof -
  let ?TA = "[(w_leaf, 0xFB), (w_EM, 0xFB)] :: (nat EstimateMemory \<times> BitMemoryTrait) list"
  let ?TB = "[(w_leaf, 0xFB), (w_EM, 0xDF)] :: (nat EstimateMemory \<times> BitMemoryTrait) list"
  let ?TC = "[(w_leaf, 0xC0), (w_EM, 0xFB)] :: (nat EstimateMemory \<times> BitMemoryTrait) list"
  let ?UL = "[] :: (nat \<times> BitMemoryTrait) list"
  let ?EU = "Map.empty :: nat \<rightharpoonup> nat \<times> BitMemoryTrait"
  have P: "header w_P = w_H" "LatchDF w_P \<noteq> None" "ExitDF w_P \<noteq> None"
    by (simp_all add: w_P_def)
  have lat: "trait_lattice (header w_P)" by (simp add: P w_H_lattice)
  have ne': "w_leaf \<noteq> w_EM" by (simp add: w_leaf_def w_EM_def)
  have runA: "\<exists>DS'. storeResults w_P 0 Map.empty ?EU w_DepsEM ?TA ?UL Map.empty
                = Inr (?TA, DS')"
  proof -
    have dom: "list_all (\<lambda>E. fst E \<in> dom w_DepsEM) ?TA"
      by (simp add: w_DepsEM_def)
    from storeResults_returns[OF _ P(2,3) dom, of Map.empty 0 Map.empty Map.empty ?UL]
    obtain TL' DS' where r: "storeResults w_P 0 Map.empty ?EU w_DepsEM
        ?TA ?UL Map.empty = Inr (TL', DS')"
      by auto
    have "(case storeResults w_P 0 Map.empty ?EU w_DepsEM ?TA ?UL Map.empty of
             Inl e \<Rightarrow> [] | Inr (TL', DS') \<Rightarrow> TL') = ?TA"
      by (simp add: storeResults_def store_access_def store_unknowns_def checkFirstPrivate_def
          w_P_def w_H_def Let_def explicit_in_node_def insert_access_def storeDepIfNeed_def
          BitMemoryTrait_default_def w_DepsEM_def w_leaf_def w_EM_def)
    with r show ?thesis by simp
  qed
  have runB: "\<exists>DS'. storeResults w_P 0 Map.empty ?EU w_DepsEM ?TB ?UL Map.empty
                = Inr (?TB, DS')"
  proof -
    have dom: "list_all (\<lambda>E. fst E \<in> dom w_DepsEM) ?TB"
      by (simp add: w_DepsEM_def)
    from storeResults_returns[OF _ P(2,3) dom, of Map.empty 0 Map.empty Map.empty ?UL]
    obtain TL' DS' where r: "storeResults w_P 0 Map.empty ?EU w_DepsEM
        ?TB ?UL Map.empty = Inr (TL', DS')"
      by auto
    have "(case storeResults w_P 0 Map.empty ?EU w_DepsEM ?TB ?UL Map.empty of
             Inl e \<Rightarrow> [] | Inr (TL', DS') \<Rightarrow> TL') = ?TB"
      by (simp add: storeResults_def store_access_def store_unknowns_def checkFirstPrivate_def
          w_P_def w_H_def Let_def explicit_in_node_def insert_access_def storeDepIfNeed_def
          BitMemoryTrait_default_def w_DepsEM_def w_leaf_def w_EM_def)
    with r show ?thesis by simp
  qed
  have runC: "\<exists>DS'. storeResults w_P 0 Map.empty ?EU w_DepsEM ?TC ?UL Map.empty
                = Inr (?TC, DS')"
  proof -
    have dom: "list_all (\<lambda>E. fst E \<in> dom w_DepsEM) ?TC"
      by (simp add: w_DepsEM_def)
    from storeResults_returns[OF _ P(2,3) dom, of Map.empty 0 Map.empty Map.empty ?UL]
    obtain TL' DS' where r: "storeResults w_P 0 Map.empty ?EU w_DepsEM
        ?TC ?UL Map.empty = Inr (TL', DS')"
      by auto
    have "(case storeResults w_P 0 Map.empty ?EU w_DepsEM ?TC ?UL Map.empty of
             Inl e \<Rightarrow> [] | Inr (TL', DS') \<Rightarrow> TL') = ?TC"
      by (simp add: storeResults_def store_access_def store_unknowns_def checkFirstPrivate_def
          w_P_def w_H_def Let_def explicit_in_node_def insert_access_def storeDepIfNeed_def
          BitMemoryTrait_default_def w_DepsEM_def w_leaf_def w_EM_def)
    with r show ?thesis by simp
  qed
  have ex: "\<not> (list_ex (\<lambda>E. explicit_in_node w_P 0 Map.empty (fst E)) TL
                \<or> list_ex (\<lambda>U. explicit_unknown_in_node w_P 0 ?EU (fst U)) ?UL)"
    for TL :: "(nat EstimateMemory \<times> BitMemoryTrait) list"
    by (simp add: explicit_in_node_def list_ex_iff)
  have nu: "\<not> list_ex (\<lambda>U. dropUnitFlag w_H (snd U) = bits w_H Dependency) ?UL" by simp
  have A: "\<exists>TL' DS' node.
      storeResults w_P 0 Map.empty ?EU w_DepsEM ?TA ?UL Map.empty
        = Inr (TL', DS')
    \<and> DS' 0 = Some node \<and> at_dptr node = {trait_Readonly}"
  proof -
    from runA obtain DS' where
      r: "storeResults w_P 0 Map.empty ?EU w_DepsEM ?TA ?UL Map.empty
            = Inr (?TA, DS')" by auto
    have m: "?UL \<noteq> [] \<or> 2 \<le> length ?TA" by simp
    from storeResults_combined[OF r m lat, unfolded P(1)]
    obtain node where n: "DS' 0 = Some node"
      and d: "at_dptr node
         = (toDescriptor w_H (combine w_H (conjoined w_H ?TA ?UL))
              - {trait_Flow, trait_Anti, trait_Output})
           \<union> (dep_union w_H w_DepsEM ?TA
               \<union> (if list_ex (\<lambda>U. dropUnitFlag w_H (snd U) = bits w_H Dependency) ?UL
                   then {trait_Flow, trait_Anti, trait_Output} else {}))
           \<union> (if list_ex (\<lambda>E. explicit_in_node w_P 0 Map.empty (fst E)) ?TA
                  \<or> list_ex (\<lambda>U. explicit_unknown_in_node w_P 0 ?EU (fst U)) ?UL
               then {trait_ExplicitAccess} else {})"
      by (elim exE conjE) (rule that)
    have t: "toDescriptor w_H (combine w_H (conjoined w_H ?TA ?UL))
        = {trait_Readonly}"
      by (simp add: conjoined_def combine_def w_H_def)
    have k: "dep_union w_H w_DepsEM ?TA = {}"
      by (simp add: dep_union_def w_H_def)
    have "at_dptr node = {trait_Readonly}"
      unfolding d t k using ex[of ?TA] nu by simp
    with r n show ?thesis by blast
  qed
  have B: "\<exists>TL' DS' node.
      storeResults w_P 0 Map.empty ?EU w_DepsEM ?TB ?UL Map.empty
        = Inr (TL', DS')
    \<and> DS' 0 = Some node \<and> at_dptr node = {}"
  proof -
    from runB obtain DS' where
      r: "storeResults w_P 0 Map.empty ?EU w_DepsEM ?TB ?UL Map.empty
            = Inr (?TB, DS')" by auto
    have m: "?UL \<noteq> [] \<or> 2 \<le> length ?TB" by simp
    from storeResults_combined[OF r m lat, unfolded P(1)]
    obtain node where n: "DS' 0 = Some node"
      and d: "at_dptr node
         = (toDescriptor w_H (combine w_H (conjoined w_H ?TB ?UL))
              - {trait_Flow, trait_Anti, trait_Output})
           \<union> (dep_union w_H w_DepsEM ?TB
               \<union> (if list_ex (\<lambda>U. dropUnitFlag w_H (snd U) = bits w_H Dependency) ?UL
                   then {trait_Flow, trait_Anti, trait_Output} else {}))
           \<union> (if list_ex (\<lambda>E. explicit_in_node w_P 0 Map.empty (fst E)) ?TB
                  \<or> list_ex (\<lambda>U. explicit_unknown_in_node w_P 0 ?EU (fst U)) ?UL
               then {trait_ExplicitAccess} else {})"
      by (elim exE conjE) (rule that)
    have t: "toDescriptor w_H (combine w_H (conjoined w_H ?TB ?UL))
        = {trait_Flow, trait_Anti, trait_Output}"
      by (simp add: conjoined_def combine_def w_H_def)
    have k: "dep_union w_H w_DepsEM ?TB = {}"
      by (simp add: dep_union_def w_H_def)
    have "at_dptr node = {}"
      unfolding d t k using ex[of ?TB] nu by simp
    with r n show ?thesis by blast
  qed
  have C: "\<exists>TL' DS' node.
      storeResults w_P 0 Map.empty ?EU w_DepsEM ?TC ?UL Map.empty
        = Inr (TL', DS')
    \<and> DS' 0 = Some node \<and> at_dptr node = {trait_Flow}"
  proof -
    from runC obtain DS' where
      r: "storeResults w_P 0 Map.empty ?EU w_DepsEM ?TC ?UL Map.empty
            = Inr (?TC, DS')" by auto
    have m: "?UL \<noteq> [] \<or> 2 \<le> length ?TC" by simp
    from storeResults_combined[OF r m lat, unfolded P(1)]
    obtain node where n: "DS' 0 = Some node"
      and d: "at_dptr node
         = (toDescriptor w_H (combine w_H (conjoined w_H ?TC ?UL))
              - {trait_Flow, trait_Anti, trait_Output})
           \<union> (dep_union w_H w_DepsEM ?TC
               \<union> (if list_ex (\<lambda>U. dropUnitFlag w_H (snd U) = bits w_H Dependency) ?UL
                   then {trait_Flow, trait_Anti, trait_Output} else {}))
           \<union> (if list_ex (\<lambda>E. explicit_in_node w_P 0 Map.empty (fst E)) ?TC
                  \<or> list_ex (\<lambda>U. explicit_unknown_in_node w_P 0 ?EU (fst U)) ?UL
               then {trait_ExplicitAccess} else {})"
      by (elim exE conjE) (rule that)
    have t: "toDescriptor w_H (combine w_H (conjoined w_H ?TC ?UL))
        = {trait_Flow, trait_Anti, trait_Output}"
      by (simp add: conjoined_def combine_def w_H_def)
    have k: "dep_union w_H w_DepsEM ?TC = {trait_Flow}"
      using ne'
      by (auto simp: dep_union_def w_H_def w_DepsEM_def get_dep_def update_mDptr
          new_DependenceImp_def dep_traits_def)
    have "at_dptr node = {trait_Flow}"
      unfolding d t k using ex[of ?TC] nu by simp
    with r n show ?thesis by blast
  qed
  have R: "dropUnitFlag w_H (combine w_H (conjoined w_H ?TA ?UL))
      = bits w_H Readonly"
    "dropUnitFlag w_H (combine w_H (conjoined w_H ?TB ?UL))
      = bits w_H Dependency"
    by (simp_all add: conjoined_def combine_def w_H_def)
  from A B C R show ?thesis by (intro conjI)
qed

text \<open>
  The claim as stated gives \<^verbatim>\<open>Dependency\<close> whenever not every entry is \<^verbatim>\<open>Readonly\<close> and
  not every entry is \<^verbatim>\<open>Shared\<close>. A node with a read-only region and a region whose
  address alone is taken (\<^verbatim>\<open>NoAccess & AddressAccess\<close>, as \<^verbatim>\<open>resolveAddresses\<close> stores
  it) is classified \<^verbatim>\<open>Readonly\<close>: the second entry is neither \<^verbatim>\<open>Readonly\<close> nor
  \<^verbatim>\<open>Shared\<close>, and the conjunction still is \<^verbatim>\<open>Readonly\<close>.
\<close>

theorem storeResults_combined_counterexample:
  "dropUnitFlag w_H (bits w_H NoAccess AND bits w_H AddressAccess) = bits w_H NoAccess
   \<and> bits w_H NoAccess \<noteq> bits w_H Readonly \<and> bits w_H NoAccess \<noteq> bits w_H Shared
   \<and> (case storeResults w_P 0 Map.empty (Map.empty :: nat \<rightharpoonup> nat \<times> BitMemoryTrait) w_DepsEM
              [(w_leaf, bits w_H Readonly),
               (w_EM, bits w_H NoAccess AND bits w_H AddressAccess)] [] Map.empty of
         Inl e \<Rightarrow> None | Inr (TL', DS') \<Rightarrow> map_option at_dptr (DS' 0))
       = Some {trait_Readonly, trait_AddressAccess}"
  by (simp add: storeResults_def store_access_def store_unknowns_def checkFirstPrivate_def
      w_P_def w_H_def Let_def explicit_in_node_def insert_access_def combine_def
      BitMemoryTrait_default_def dep_traits_def w_leaf_def w_EM_def)

lemma insert_access_memories:
  "set (map emt_memory (at_accesses (insert_access t node)))
     = insert (emt_memory t) (set (map emt_memory (at_accesses node)))"
  by (auto simp: insert_access_def)

lemma storeDepIfNeed_memories:
  assumes "storeDepIfNeed P Deps EM node = Inr node'"
  shows "map emt_memory (at_accesses node') = map emt_memory (at_accesses node)"
  using assms
  by (auto simp: storeDepIfNeed_def storeDep_memory split: option.splits)

lemma store_access_memories:
  assumes r: "store_access P N EA Deps EMI s = Inr s'"
  shows "set (map emt_memory (at_accesses (NodeTrait s')))
     = insert (fst EMI) (set (map emt_memory (at_accesses (NodeTrait s))))"
proof -
  let ?H = "header P"
  from r obtain EMI1 Dptr1 where
    c: "checkFirstPrivate P EMI (toDescriptor ?H (snd EMI)) = Inr (EMI1, Dptr1)"
    by (auto simp: store_access_def Let_def split: sum.splits)
  have f1: "fst EMI1 = fst EMI" by (rule checkFirstPrivate_fst[OF c])
  define ex where "ex = explicit_in_node P N EA (fst EMI1)"
  define node1 where "node1 = (if ex then (NodeTrait s)\<lparr> at_dptr :=
                                   insert trait_ExplicitAccess (at_dptr (NodeTrait s)) \<rparr>
                           else NodeTrait s)"
  define Dptr3 where "Dptr3 = (if ex then insert trait_ExplicitAccess Dptr1 else Dptr1) - dep_traits"
  define t :: "('a, 'c) EstimateMemoryTrait"
    where "t = \<lparr> emt_memory = fst EMI1, emt_dptr = Dptr3, emt_dep = (\<lambda>_. None) \<rparr>"
  define node2 where "node2 = insert_access t node1"
  have acc1: "at_accesses node1 = at_accesses (NodeTrait s)"
    by (simp add: node1_def)
  have m2: "set (map emt_memory (at_accesses node2))
     = insert (fst EMI) (set (map emt_memory (at_accesses (NodeTrait s))))"
    unfolding node2_def insert_access_memories acc1 by (simp add: t_def f1)
  show ?thesis
  proof (cases "dropUnitFlag ?H (snd EMI1) = bits ?H Dependency")
    case False
    with r c have "NodeTrait s' = node2"
      by (auto simp: store_access_def Let_def node2_def t_def Dptr3_def node1_def ex_def)
    with m2 show ?thesis by simp
  next
    case True
    with r c obtain node3 where n3: "storeDepIfNeed P Deps (fst EMI1) node2 = Inr node3"
      and s': "NodeTrait s' = node3"
      by (auto simp: store_access_def Let_def node2_def t_def Dptr3_def node1_def ex_def
          split: sum.splits)
    from storeDepIfNeed_memories[OF n3] m2 s' show ?thesis by simp
  qed
qed

lemma store_accesses_memories:
  assumes "store_accesses P N EA Deps TL s = Inr s'"
  shows "set (map emt_memory (at_accesses (NodeTrait s')))
     = set (map fst TL) \<union> set (map emt_memory (at_accesses (NodeTrait s)))"
  using assms
proof (induction TL arbitrary: s)
  case Nil
  then show ?case by simp
next
  case (Cons EMI TL)
  from Cons.prems obtain s1 where s1: "store_access P N EA Deps EMI s = Inr s1"
    "store_accesses P N EA Deps TL s1 = Inr s'"
    by (auto split: sum.splits)
  from Cons.IH[OF s1(2)] store_access_memories[OF s1(1)]
  show ?case by auto
qed

lemma storeResults_multi_memories:
  fixes P :: "('loc, 'node, 'scev) Pass" and UL :: "('inst \<times> BitMemoryTrait) list"
  assumes "storeResults P N EA EU Deps TL UL DS = Inr (TL', DS')"
      and "UL \<noteq> [] \<or> 2 \<le> length TL"
  shows "set (map emt_memory (at_accesses (the (DS' N)))) = set (map fst TL)"
proof -
  let ?s0 = "\<lparr> CombinedTrait = BitMemoryTrait_default (header P), CombinedDepDptr = {},
        NodeTrait = \<lparr> at_dptr = {}, at_dep = (\<lambda>_. None), at_accesses = [], at_unknowns = [] \<rparr>,
        Visited = [] \<rparr> :: ('loc, 'inst, 'scev) store_state"
  from storeResults_multi[OF assms(1,2)]
  obtain s1 where s1: "store_accesses P N EA Deps TL ?s0 = Inr s1"
    and DS': "DS' = DS(N \<mapsto> (NodeTrait (store_unknowns P N EU UL s1))
          \<lparr> at_dptr :=
              (if trait_ExplicitAccess \<in> at_dptr (NodeTrait (store_unknowns P N EU UL s1))
               then insert trait_ExplicitAccess
                      (toDescriptor (header P)
                         (combine (header P) (CombinedTrait (store_unknowns P N EU UL s1)))
                       - dep_traits \<union> CombinedDepDptr (store_unknowns P N EU UL s1))
               else toDescriptor (header P)
                         (combine (header P) (CombinedTrait (store_unknowns P N EU UL s1)))
                       - dep_traits \<union> CombinedDepDptr (store_unknowns P N EU UL s1)),
            at_accesses :=
              map (\<lambda>T. T\<lparr> emt_dptr := emt_dptr T
                                \<union> CombinedDepDptr (store_unknowns P N EU UL s1) \<rparr>)
                  (at_accesses (NodeTrait (store_unknowns P N EU UL s1))) \<rparr>)"
    by (elim exE conjE) (rule that)
  from store_accesses_loop[OF s1 fresh_kinds_below]
  have k1: "kinds_below s1" by simp
  from store_unknowns_loop[OF k1, of P N EU UL]
  have a2: "at_accesses (NodeTrait (store_unknowns P N EU UL s1)) = at_accesses (NodeTrait s1)"
    by simp
  from store_accesses_memories[OF s1]
  have "set (map emt_memory (at_accesses (NodeTrait s1))) = set (map fst TL)" by simp
  then show ?thesis
    unfolding DS' by (simp add: a2 comp_def)
qed

text \<open>
  C6 (as amended). \<^verbatim>\<open>storeResults\<close> returns when the node has no entry yet, the reaching
  definitions of the latch and the exit are known and every region of the list has a
  dependence record. Whenever it returns for a node with several entries, the list keeps
  its regions, every region of the list has an entry in the node, and every such entry
  carries the same combination of \<^verbatim>\<open>Flow\<close>, \<^verbatim>\<open>Anti\<close> and \<^verbatim>\<open>Output\<close> as the node itself:
  the union of the kinds recorded for the regions whose trait is \<^verbatim>\<open>Dependency\<close>, and all
  three if an unknown access is \<^verbatim>\<open>Dependency\<close>. The entries of the unknown accesses are
  those of the list, and each keeps the descriptor of its own trait, with
  \<^verbatim>\<open>ExplicitAccess\<close> added when it is explicitly accessed in the node: the kinds of the
  node are not added to it.
\<close>

theorem storeResults_same_kinds:
  fixes P :: "('loc, 'node, 'scev) Pass" and UL :: "('inst \<times> BitMemoryTrait) list"
  shows "(DS N = None \<and> LatchDF P \<noteq> None \<and> ExitDF P \<noteq> None
          \<and> list_all (\<lambda>E. fst E \<in> dom Deps) TL
         \<longrightarrow> (\<exists>TL' DS'. storeResults P N EA EU Deps TL UL DS = Inr (TL', DS')))
     \<and> (storeResults P N EA EU Deps TL UL DS = Inr (TL', DS') \<and> (UL \<noteq> [] \<or> 2 \<le> length TL)
         \<longrightarrow> (\<exists>node K. DS' N = Some node
               \<and> map fst TL' = map fst TL
               \<and> set (map emt_memory (at_accesses node)) = set (map fst TL)
               \<and> K = dep_union (header P) Deps TL'
                      \<union> (if list_ex (\<lambda>U. dropUnitFlag (header P) (snd U)
                                           = bits (header P) Dependency) UL
                          then {trait_Flow, trait_Anti, trait_Output} else {})
               \<and> at_dptr node \<inter> {trait_Flow, trait_Anti, trait_Output} = K
               \<and> list_all (\<lambda>T. emt_dptr T \<inter> {trait_Flow, trait_Anti, trait_Output} = K)
                    (at_accesses node)
               \<and> set (map umt_memory (at_unknowns node)) = set (map fst UL)
               \<and> (\<forall>u \<in> set (at_unknowns node).
                     \<exists>U \<in> set UL. u = \<lparr> umt_memory = fst U,
                        umt_dptr = toDescriptor (header P) (snd U)
                          \<union> (if explicit_unknown_in_node P N EU (fst U)
                              then {trait_ExplicitAccess} else {}) \<rparr>)))"
proof (intro conjI impI)
  assume "DS N = None \<and> LatchDF P \<noteq> None \<and> ExitDF P \<noteq> None
          \<and> list_all (\<lambda>E. fst E \<in> dom Deps) TL"
  then show "\<exists>TL' DS'. storeResults P N EA EU Deps TL UL DS = Inr (TL', DS')"
    using storeResults_returns[of DS N P Deps TL EA EU UL] by blast
next
  assume a: "storeResults P N EA EU Deps TL UL DS = Inr (TL', DS')
      \<and> (UL \<noteq> [] \<or> 2 \<le> length TL)"
  then have r: "storeResults P N EA EU Deps TL UL DS = Inr (TL', DS')"
    and ne: "UL \<noteq> [] \<or> 2 \<le> length TL" by simp_all
  let ?K = "dep_union (header P) Deps TL'
                 \<union> (if list_ex (\<lambda>U. dropUnitFlag (header P) (snd U) = bits (header P) Dependency) UL
                     then dep_traits else {})"
  from storeResults_multi_kinds[OF r ne]
  obtain node where n: "DS' N = Some node"
    and d: "at_dptr node \<inter> dep_traits = ?K"
    and l: "list_all (\<lambda>T. emt_dptr T \<inter> dep_traits = ?K) (at_accesses node)"
    and m: "map fst TL' = map fst TL"
    by (elim exE conjE) (rule that)
  from storeResults_multi_memories[OF r ne] n
  have mem: "set (map emt_memory (at_accesses node)) = set (map fst TL)" by simp
  from storeResults_multi_node[OF r ne] n
  have um: "set (map umt_memory (at_unknowns node)) = set (map fst UL)"
    and ud: "\<forall>u \<in> set (at_unknowns node).
                     \<exists>U \<in> set UL. u = \<lparr> umt_memory = fst U,
                        umt_dptr = toDescriptor (header P) (snd U)
                          \<union> (if explicit_unknown_in_node P N EU (fst U)
                              then {trait_ExplicitAccess} else {}) \<rparr>"
    by simp_all
  have K: "?K = dep_union (header P) Deps TL'
                      \<union> (if list_ex (\<lambda>U. dropUnitFlag (header P) (snd U)
                                           = bits (header P) Dependency) UL
                          then {trait_Flow, trait_Anti, trait_Output} else {})"
    by (simp add: dep_traits_def)
  from d have d': "at_dptr node \<inter> {trait_Flow, trait_Anti, trait_Output} = ?K"
    by (simp add: dep_traits_def)
  from l have l': "list_all (\<lambda>T. emt_dptr T \<inter> {trait_Flow, trait_Anti, trait_Output} = ?K)
                    (at_accesses node)"
    by (simp add: dep_traits_def)
  show "\<exists>node K. DS' N = Some node
               \<and> map fst TL' = map fst TL
               \<and> set (map emt_memory (at_accesses node)) = set (map fst TL)
               \<and> K = dep_union (header P) Deps TL'
                      \<union> (if list_ex (\<lambda>U. dropUnitFlag (header P) (snd U)
                                           = bits (header P) Dependency) UL
                          then {trait_Flow, trait_Anti, trait_Output} else {})
               \<and> at_dptr node \<inter> {trait_Flow, trait_Anti, trait_Output} = K
               \<and> list_all (\<lambda>T. emt_dptr T \<inter> {trait_Flow, trait_Anti, trait_Output} = K)
                    (at_accesses node)
               \<and> set (map umt_memory (at_unknowns node)) = set (map fst UL)
               \<and> (\<forall>u \<in> set (at_unknowns node).
                     \<exists>U \<in> set UL. u = \<lparr> umt_memory = fst U,
                        umt_dptr = toDescriptor (header P) (snd U)
                          \<union> (if explicit_unknown_in_node P N EU (fst U)
                              then {trait_ExplicitAccess} else {}) \<rparr>)"
    by (intro exI[of _ node] exI[of _ ?K] conjI) (rule n m mem K d' l' um ud)+
qed

theorem storeResults_same_kinds_witness:
  "\<exists>TL' DS' node.
      storeResults w_P 0 Map.empty (Map.empty :: nat \<rightharpoonup> nat \<times> BitMemoryTrait) w_DepsEM
        [(w_leaf, 0xC0), (w_EM, 0xC0)] [(5, 0xFB)] Map.empty = Inr (TL', DS')
    \<and> DS' 0 = Some node
    \<and> set (map emt_memory (at_accesses node)) = {w_leaf, w_EM}
    \<and> at_dptr node \<inter> {trait_Flow, trait_Anti, trait_Output} = {trait_Flow, trait_Output}
    \<and> list_all (\<lambda>T. emt_dptr T \<inter> {trait_Flow, trait_Anti, trait_Output}
                       = {trait_Flow, trait_Output}) (at_accesses node)
    \<and> set (map umt_memory (at_unknowns node)) = {5}
    \<and> list_all (\<lambda>u. umt_dptr u = {trait_Readonly}) (at_unknowns node)"
proof -
  let ?TL = "[(w_leaf, 0xC0), (w_EM, 0xC0)] :: (nat EstimateMemory \<times> BitMemoryTrait) list"
  let ?UL = "[(5, 0xFB)] :: (nat \<times> BitMemoryTrait) list"
  let ?EU = "Map.empty :: nat \<rightharpoonup> nat \<times> BitMemoryTrait"
  note th = storeResults_same_kinds[where P = w_P and N = 0 and EA = Map.empty and EU = ?EU
      and Deps = w_DepsEM and TL = ?TL and UL = ?UL and DS = Map.empty]
  have pre: "(Map.empty :: (nat, nat, nat, nat) DependencySet) 0 = None
      \<and> LatchDF w_P \<noteq> None \<and> ExitDF w_P \<noteq> None
      \<and> list_all (\<lambda>E. fst E \<in> dom w_DepsEM) ?TL"
    by (simp add: w_P_def w_DepsEM_def)
  from th[THEN conjunct1, rule_format, OF pre]
  obtain TL' DS' where r: "storeResults w_P 0 Map.empty ?EU w_DepsEM ?TL ?UL Map.empty
      = Inr (TL', DS')"
    by (elim exE) (rule that)
  have "(case storeResults w_P 0 Map.empty ?EU w_DepsEM ?TL ?UL Map.empty of
           Inl e \<Rightarrow> [] | Inr (TL', DS') \<Rightarrow> TL') = ?TL"
    by (simp add: storeResults_def store_access_def store_unknowns_def store_unknown_def
        checkFirstPrivate_def
        w_P_def w_H_def Let_def explicit_in_node_def insert_access_def storeDepIfNeed_def
        BitMemoryTrait_default_def w_DepsEM_def w_leaf_def w_EM_def)
  with r have TL': "TL' = ?TL" by simp
  have ne: "storeResults w_P 0 Map.empty ?EU w_DepsEM ?TL ?UL Map.empty = Inr (TL', DS')
      \<and> (?UL \<noteq> [] \<or> 2 \<le> length ?TL)"
    using r by simp
  from th[THEN conjunct2, rule_format, OF ne]
  obtain node K where n: "DS' 0 = Some node"
    and mem: "set (map emt_memory (at_accesses node)) = set (map fst ?TL)"
    and K: "K = dep_union (header w_P) w_DepsEM TL'
                      \<union> (if list_ex (\<lambda>U. dropUnitFlag (header w_P) (snd U)
                                           = bits (header w_P) Dependency) ?UL
                          then {trait_Flow, trait_Anti, trait_Output} else {})"
    and d: "at_dptr node \<inter> {trait_Flow, trait_Anti, trait_Output} = K"
    and l: "list_all (\<lambda>T. emt_dptr T \<inter> {trait_Flow, trait_Anti, trait_Output} = K)
                    (at_accesses node)"
    and um: "set (map umt_memory (at_unknowns node)) = set (map fst ?UL)"
    and ud: "\<forall>u \<in> set (at_unknowns node).
                     \<exists>U \<in> set ?UL. u = \<lparr> umt_memory = fst U,
                        umt_dptr = toDescriptor (header w_P) (snd U)
                          \<union> (if explicit_unknown_in_node w_P 0 ?EU (fst U)
                              then {trait_ExplicitAccess} else {}) \<rparr>"
    by (elim exE conjE) (rule that)
  have ne': "w_leaf \<noteq> w_EM" by (simp add: w_leaf_def w_EM_def)
  have Kv: "K = {trait_Flow, trait_Output}"
    unfolding K TL' using ne'
    by (auto simp: dep_union_def w_P_def w_H_def w_DepsEM_def get_dep_def update_mDptr
        new_DependenceImp_def dep_traits_def)
  have tr: "toDescriptor (header w_P) 0xFB = {trait_Readonly}"
    by (simp add: w_P_def w_H_def)
  from ud have ud': "list_all (\<lambda>u. umt_dptr u = {trait_Readonly}) (at_unknowns node)"
    unfolding list_all_iff by (auto simp: tr explicit_unknown_in_node_def)
  from um have um': "set (map umt_memory (at_unknowns node)) = {5}" by simp
  from mem have mem': "set (map emt_memory (at_accesses node)) = {w_leaf, w_EM}" by simp
  show ?thesis
    using r n mem' d l um' ud' unfolding Kv
    by (intro exI[of _ TL'] exI[of _ DS'] exI[of _ node] conjI)
qed

text \<open>
  The claim as stated gives the combination to every retained entry of the node. A node
  with one region that is \<^verbatim>\<open>Dependency\<close> with a recorded flow dependence, and one
  read-only unknown access: the node and the entry of the region carry \<^verbatim>\<open>Flow\<close>, the
  entry of the unknown access is stored as \<^verbatim>\<open>Readonly\<close> alone.
\<close>

theorem storeResults_unknown_entry_counterexample:
  "dropUnitFlag w_H (bits w_H Dependency) = bits w_H Dependency
   \<and> (case storeResults w_P 0 Map.empty (Map.empty :: nat \<rightharpoonup> nat \<times> BitMemoryTrait) w_DepsEM
              [(w_leaf, bits w_H Dependency)] [(5, bits w_H Readonly)] Map.empty of
         Inl e \<Rightarrow> None | Inr (TL', DS') \<Rightarrow> map_option at_dptr (DS' 0))
       = Some {trait_Flow}
   \<and> (case storeResults w_P 0 Map.empty (Map.empty :: nat \<rightharpoonup> nat \<times> BitMemoryTrait) w_DepsEM
              [(w_leaf, bits w_H Dependency)] [(5, bits w_H Readonly)] Map.empty of
         Inl e \<Rightarrow> None | Inr (TL', DS') \<Rightarrow> map_option (map emt_dptr \<circ> at_accesses) (DS' 0))
       = Some [{trait_Flow}]
   \<and> (case storeResults w_P 0 Map.empty (Map.empty :: nat \<rightharpoonup> nat \<times> BitMemoryTrait) w_DepsEM
              [(w_leaf, bits w_H Dependency)] [(5, bits w_H Readonly)] Map.empty of
         Inl e \<Rightarrow> None | Inr (TL', DS') \<Rightarrow> map_option (map umt_dptr \<circ> at_unknowns) (DS' 0))
       = Some [{trait_Readonly}]"
  by (simp add: storeResults_def store_access_def store_unknowns_def store_unknown_def
      checkFirstPrivate_def w_P_def w_H_def Let_def explicit_in_node_def
      explicit_unknown_in_node_def insert_access_def combine_def storeDepIfNeed_def
      storeDep_def for_each_def access_dptr_def update_def UpdateFunctor_def
      new_DependenceImp_def
      BitMemoryTrait_default_def dep_traits_def w_DepsEM_def w_leaf_def w_EM_def)

end
